theory Spec2Isabelle
  imports Complex_Main "HOL-Library.AList"
begin

section \<open>Python values, strings and exceptions\<close>

text \<open>
  Strings are \<^typ>\<open>string\<close>. The model is exact on ASCII text: \<open>lower\<close> and \<open>upper\<close> map
  the ASCII letters as \<^verbatim>\<open>str.lower\<close> and \<^verbatim>\<open>str.upper\<close> do and leave every other
  character alone, and \<open>isspace\<close> holds of the characters below 256 that \<^verbatim>\<open>str.strip\<close>
  and \<^verbatim>\<open>str.split\<close> treat as white space.
\<close>

datatype error =
    AttributeError
  | TypeError
  | KeyError
  | IndexError
  | StopIteration
  | ValueError string
  | ValidationError string
  | SearchError string

definition lower_char :: "char \<Rightarrow> char" where
  "lower_char c =
     (let n = (of_char c :: nat) in if 65 \<le> n \<and> n \<le> 90 then char_of (n + 32) else c)"

definition upper_char :: "char \<Rightarrow> char" where
  "upper_char c =
     (let n = (of_char c :: nat) in if 97 \<le> n \<and> n \<le> 122 then char_of (n - 32) else c)"

definition lower :: "string \<Rightarrow> string" where
  "lower s = map lower_char s"

definition upper :: "string \<Rightarrow> string" where
  "upper s = map upper_char s"

definition isspace :: "char \<Rightarrow> bool" where
  "isspace c = ((of_char c :: nat) \<in> {9, 10, 11, 12, 13, 28, 29, 30, 31, 32, 133, 160})"

text \<open>\<open>str_in n h\<close> is Python's \<^verbatim>\<open>n in h\<close> on strings: \<open>n\<close> occurs in \<open>h\<close>.\<close>

fun str_in :: "string \<Rightarrow> string \<Rightarrow> bool" where
  "str_in n [] = (n = [])"
| "str_in n (c # cs) = (take (length n) (c # cs) = n \<or> str_in n cs)"

text \<open>
  The values a product dictionary can hold (it is loaded from JSON and later annotated by
  the search stages). A dictionary is an association list in insertion order, read with
  \<^const>\<open>map_of\<close>.
\<close>

datatype pyval =
    PStr string
  | PInt int
  | PBool bool
  | PFloat real
  | PNone
  | PList "pyval list"
  | PDict "(string \<times> pyval) list"

type_synonym document = "(string \<times> pyval) list"

fun truthy :: "pyval \<Rightarrow> bool" where
  "truthy (PStr s) = (s \<noteq> [])"
| "truthy (PInt i) = (i \<noteq> 0)"
| "truthy (PBool b) = b"
| "truthy (PFloat x) = (x \<noteq> 0)"
| "truthy PNone = False"
| "truthy (PList xs) = (xs \<noteq> [])"
| "truthy (PDict kvs) = (kvs \<noteq> [])"

text \<open>\<^verbatim>\<open>d.get(key, default)\<close>.\<close>

definition dict_get :: "document \<Rightarrow> string \<Rightarrow> pyval \<Rightarrow> pyval" where
  "dict_get d key dflt = (case map_of d key of None \<Rightarrow> dflt | Some v \<Rightarrow> v)"

text \<open>
  \<^verbatim>\<open>str(v)\<close>: the identity on strings. How Python prints any other value is a parameter
  \<open>repr\<close> of the functions that call it.
\<close>

fun py_str :: "(pyval \<Rightarrow> string) \<Rightarrow> pyval \<Rightarrow> string" where
  "py_str repr (PStr s) = s"
| "py_str repr v = repr v"

text \<open>\<^verbatim>\<open>v in selected_values\<close> for a list of strings: only an equal string is a member.\<close>

fun val_in :: "pyval \<Rightarrow> string list \<Rightarrow> bool" where
  "val_in (PStr s) sel = (s \<in> set sel)"
| "val_in v sel = False"

section \<open>Faceted filtering\<close>

text \<open>\<^verbatim>\<open>advanced_search_features.py\<close>, class \<^verbatim>\<open>FacetedSearchEngine\<close>.\<close>

definition infer_category :: "string \<Rightarrow> string" where
  "infer_category product_type =
     (let type_lower = lower product_type;
          any = (\<lambda>kws. list_ex (\<lambda>keyword. str_in keyword type_lower) kws)
      in if any [''phone'', ''mobile'', ''smartphone'', ''tablet''] then ''Mobile & Tablets''
         else if any [''laptop'', ''computer'', ''pc'', ''desktop''] then ''Computers''
         else if any [''headphone'', ''earphone'', ''speaker'', ''audio''] then ''Audio''
         else if any [''car'', ''auto'', ''vehicle''] then ''Automotive''
         else if any [''camera'', ''photo'', ''lens''] then ''Photography''
         else if any [''home'', ''kitchen'', ''furniture''] then ''Home & Kitchen''
         else if any [''beauty'', ''cosmetic'', ''skincare''] then ''Beauty''
         else if any [''sport'', ''fitness'', ''exercise''] then ''Sports & Fitness''
         else ''Other'')"

text \<open>
  The label of the lowest price tier is not ASCII in the source; it is written here as the
  UTF-8 bytes of the source's literal.
\<close>

definition under_label :: string where
  "under_label = ''Under '' @ map char_of [195, 162, 226, 128, 154, 194, 185 :: nat] @ ''1000''"

definition extract_price_range :: "(pyval \<Rightarrow> string) \<Rightarrow> document \<Rightarrow> string" where
  "extract_price_range repr product =
     (let sales_package = dict_get product ''Sales Package'' (PStr []);
          name = dict_get product ''Name'' (PStr []);
          full_text = lower (py_str repr sales_package @ '' '' @ py_str repr name);
          any = (\<lambda>ps. list_ex (\<lambda>price. str_in price full_text) ps)
      in if str_in ''under'' full_text \<and> any [''1000'', ''500'', ''100''] then under_label
         else if any [''premium'', ''expensive'', ''high-end''] then ''Premium''
         else if any [''budget'', ''affordable'', ''cheap''] then ''Budget''
         else ''Standard'')"

definition spec_indicators :: "string list" where
  "spec_indicators =
     [''gb'', ''mb'', ''inch'', ''mp'', ''mah'', ''hz'', ''ghz'', ''ram'', ''storage'', ''battery'']"

text \<open>
  \<^verbatim>\<open>_has_detailed_specs\<close> calls \<^verbatim>\<open>.lower()\<close> on the sales package once it is truthy: a
  value that is not a string raises \<^verbatim>\<open>AttributeError\<close> there.
\<close>

definition has_detailed_specs :: "document \<Rightarrow> error + bool" where
  "has_detailed_specs product =
     (let sales_package = dict_get product ''Sales Package'' (PStr [])
      in if \<not> truthy sales_package then Inr False
         else (case sales_package of
                 PStr s \<Rightarrow>
                   (let spec_count =
                          length (filter (\<lambda>indicator. str_in indicator (lower s)) spec_indicators)
                    in Inr (spec_count \<ge> 2 \<or> length s > 200))
               | _ \<Rightarrow> Inl AttributeError))"

text \<open>
  The body of the loop over \<^verbatim>\<open>filters.items()\<close> for one facet with a non-empty
  selection: the value of \<^verbatim>\<open>product_matches_facet\<close> before it is tested. A facet name
  that is none of the five leaves the flag \<^verbatim>\<open>False\<close>.
\<close>

definition product_matches_facet ::
  "(pyval \<Rightarrow> string) \<Rightarrow> document \<Rightarrow> string \<Rightarrow> string list \<Rightarrow> error + bool" where
  "product_matches_facet repr product facet_name selected_values =
     (if facet_name = ''brand'' then
        Inr (val_in (dict_get product ''Brand'' (PStr [])) selected_values)
      else if facet_name = ''type'' then
        Inr (val_in (dict_get product ''Type'' (PStr [])) selected_values)
      else if facet_name = ''category'' then
        (case dict_get product ''Type'' (PStr []) of
           PStr product_type \<Rightarrow> Inr (infer_category product_type \<in> set selected_values)
         | _ \<Rightarrow> Inl AttributeError)
      else if facet_name = ''price_range'' then
        Inr (extract_price_range repr product \<in> set selected_values)
      else if facet_name = ''has_specs'' then
        (case has_detailed_specs product of
           Inl e \<Rightarrow> Inl e
         | Inr b \<Rightarrow> Inr ((if b then ''Yes'' else ''No'') \<in> set selected_values))
      else Inr False)"

text \<open>
  The inner loop: an empty selection is skipped (\<^verbatim>\<open>continue\<close>), the first facet that
  does not match ends the loop (\<^verbatim>\<open>break\<close>) with \<^verbatim>\<open>matches_all_filters = False\<close>.
  The dictionary \<^verbatim>\<open>filters\<close> is the list of its items.
\<close>

fun matches_all_filters ::
  "(pyval \<Rightarrow> string) \<Rightarrow> document \<Rightarrow> (string \<times> string list) list \<Rightarrow> error + bool" where
  "matches_all_filters repr product [] = Inr True"
| "matches_all_filters repr product ((facet_name, selected_values) # rest) =
     (if selected_values = [] then matches_all_filters repr product rest
      else (case product_matches_facet repr product facet_name selected_values of
              Inl e \<Rightarrow> Inl e
            | Inr False \<Rightarrow> Inr False
            | Inr True \<Rightarrow> matches_all_filters repr product rest))"

text \<open>
  The outer loop over \<^verbatim>\<open>self.products\<close>, with \<^verbatim>\<open>filtered_ids\<close> as accumulator. The
  test \<^verbatim>\<open>product_id not in product_ids\<close> hashes the id: a list or a dictionary raises
  \<^verbatim>\<open>TypeError\<close>, any other value that is not a string is not in a set of strings.
\<close>

fun filter_loop ::
  "(pyval \<Rightarrow> string) \<Rightarrow> document list \<Rightarrow> string set \<Rightarrow> (string \<times> string list) list
     \<Rightarrow> string set \<Rightarrow> error + string set" where
  "filter_loop repr [] product_ids filters filtered_ids = Inr filtered_ids"
| "filter_loop repr (product # products) product_ids filters filtered_ids =
     (case dict_get product ''id'' (PStr []) of
        PList _ \<Rightarrow> Inl TypeError
      | PDict _ \<Rightarrow> Inl TypeError
      | PStr product_id \<Rightarrow>
          (if product_id \<notin> product_ids
           then filter_loop repr products product_ids filters filtered_ids
           else (case matches_all_filters repr product filters of
                   Inl e \<Rightarrow> Inl e
                 | Inr True \<Rightarrow>
                     filter_loop repr products product_ids filters (insert product_id filtered_ids)
                 | Inr False \<Rightarrow> filter_loop repr products product_ids filters filtered_ids))
      | _ \<Rightarrow> filter_loop repr products product_ids filters filtered_ids)"

definition filter_by_facets ::
  "(pyval \<Rightarrow> string) \<Rightarrow> document list \<Rightarrow> string set \<Rightarrow> (string \<times> string list) list
     \<Rightarrow> error + string set" where
  "filter_by_facets repr products product_ids filters =
     (if filters = [] then Inr product_ids
      else filter_loop repr products product_ids filters {})"

section \<open>Boolean query expressions and their evaluation\<close>

text \<open>
  \<^verbatim>\<open>advanced_search_features.py\<close>, class \<^verbatim>\<open>BooleanSearchEngine\<close>. The parser builds
  nested dictionaries whose \<^verbatim>\<open>'type'\<close> entry is one of \<^verbatim>\<open>'term'\<close>, \<^verbatim>\<open>'and'\<close>,
  \<^verbatim>\<open>'or'\<close>, \<^verbatim>\<open>'not'\<close>, \<^verbatim>\<open>'empty'\<close>; here they are the constructors of a datatype.
  The dictionary \<^verbatim>\<open>product_matches\<close> (term to set of product ids) is a map.
\<close>

datatype expression =
    Term string
  | And expression expression
  | Or expression expression
  | Not_node expression
  | Empty

type_synonym product_matches = "string \<rightharpoonup> string set"

fun evaluate_boolean_expression :: "expression \<Rightarrow> product_matches \<Rightarrow> string set" where
  "evaluate_boolean_expression (Term t) pm = (case pm t of None \<Rightarrow> {} | Some s \<Rightarrow> s)"
| "evaluate_boolean_expression (And l r) pm =
     evaluate_boolean_expression l pm \<inter> evaluate_boolean_expression r pm"
| "evaluate_boolean_expression (Or l r) pm =
     evaluate_boolean_expression l pm \<union> evaluate_boolean_expression r pm"
| "evaluate_boolean_expression (Not_node e) pm =
     \<Union> (ran pm) - evaluate_boolean_expression e pm"
| "evaluate_boolean_expression Empty pm = {}"

subsection \<open>What the filter is specified to compute\<close>

text \<open>
  The functions above read \<^verbatim>\<open>id\<close>, \<^verbatim>\<open>Type\<close> and \<^verbatim>\<open>Sales Package\<close> in ways that raise
  on some values. \<open>typed_product\<close> holds of the products on which they do not: the id is
  hashable, the type is a string (or absent), the sales package is a string or falsy (or
  absent). The loader's records, whose fields are strings, are of this kind.
\<close>

definition typed_product :: "document \<Rightarrow> bool" where
  "typed_product p =
     ((case dict_get p ''id'' (PStr []) of PList _ \<Rightarrow> False | PDict _ \<Rightarrow> False | _ \<Rightarrow> True)
      \<and> (case dict_get p ''Type'' (PStr []) of PStr _ \<Rightarrow> True | _ \<Rightarrow> False)
      \<and> (case dict_get p ''Sales Package'' (PStr []) of PStr _ \<Rightarrow> True | v \<Rightarrow> \<not> truthy v))"

text \<open>
  The facet value of a product under a facet name, following the specification: brand and
  type verbatim, the category inferred from the type, the price tier, the
  spec-completeness flag; no value under any other name.
\<close>

definition facet_value :: "(pyval \<Rightarrow> string) \<Rightarrow> document \<Rightarrow> string \<Rightarrow> string option" where
  "facet_value repr p name =
     (if name = ''brand'' then
        (case dict_get p ''Brand'' (PStr []) of PStr b \<Rightarrow> Some b | _ \<Rightarrow> None)
      else if name = ''type'' then
        (case dict_get p ''Type'' (PStr []) of PStr t \<Rightarrow> Some t | _ \<Rightarrow> None)
      else if name = ''category'' then
        (case dict_get p ''Type'' (PStr []) of PStr t \<Rightarrow> Some (infer_category t) | _ \<Rightarrow> None)
      else if name = ''price_range'' then Some (extract_price_range repr p)
      else if name = ''has_specs'' then
        (case has_detailed_specs p of Inr b \<Rightarrow> Some (if b then ''Yes'' else ''No'') | Inl _ \<Rightarrow> None)
      else None)"

text \<open>
  A product passes when every facet of \<open>filters\<close> with a non-empty selection has the
  product's facet value among the selected values.
\<close>

definition passes_filters ::
  "(pyval \<Rightarrow> string) \<Rightarrow> document \<Rightarrow> (string \<times> string list) list \<Rightarrow> bool" where
  "passes_filters repr p filters =
     list_all (\<lambda>(name, sel). sel = [] \<or>
                 (case facet_value repr p name of Some v \<Rightarrow> v \<in> set sel | None \<Rightarrow> False)) filters"

text \<open>The four products of the specification's facet example.\<close>

definition example_products :: "document list" where
  "example_products =
     [[(''id'', PStr ''1''), (''Brand'', PStr ''Samsung''), (''Type'', PStr ''Phone''),
       (''Sales Package'', PStr ''Advanced smartphone with 128GB storage'')],
      [(''id'', PStr ''2''), (''Brand'', PStr ''Apple''), (''Type'', PStr ''Phone''),
       (''Sales Package'', PStr ''Premium iPhone with camera'')],
      [(''id'', PStr ''3''), (''Brand'', PStr ''Sony''), (''Type'', PStr ''Headphone''),
       (''Sales Package'', PStr ''Wireless bluetooth headphones'')],
      [(''id'', PStr ''4''), (''Brand'', PStr ''Samsung''), (''Type'', PStr ''TV''),
       (''Sales Package'', PStr ''55 inch smart TV'')]]"

section \<open>The LRU cache\<close>

text \<open>
  \<^verbatim>\<open>advanced_caching.py\<close>, class \<^verbatim>\<open>LRUCache\<close>. The \<^verbatim>\<open>OrderedDict\<close> \<^verbatim>\<open>cache\<close> and the
  dictionary \<^verbatim>\<open>access_times\<close> are association lists in insertion order, so the first
  entry of \<open>cache\<close> is the one \<^verbatim>\<open>next(iter(self.cache))\<close> yields. Assigning to a key is
  \<^const>\<open>AList.update\<close> (in place when the key is there, appended otherwise), deleting a
  key is \<^const>\<open>AList.delete\<close>. Times are real numbers; every reading of
  \<^verbatim>\<open>time.time()\<close> is an argument of the operation that takes it.
\<close>

record 'v lru_cache =
  max_size :: int
  ttl :: real
  cache :: "(string \<times> 'v) list"
  access_times :: "(string \<times> real) list"
  hits :: int
  misses :: int
  evictions :: int

definition init :: "int \<Rightarrow> real \<Rightarrow> 'v lru_cache" where
  "init ms t = \<lparr>max_size = ms, ttl = t, cache = [], access_times = [],
                hits = 0, misses = 0, evictions = 0\<rparr>"

definition has_key :: "('k \<times> 'v) list \<Rightarrow> 'k \<Rightarrow> bool" where
  "has_key d k = (map_of d k \<noteq> None)"

text \<open>
  Every operation returns the state it leaves behind together with what the call gave: a
  value (\<open>Inr\<close>) or the exception it raised (\<open>Inl\<close>). \<^verbatim>\<open>_remove\<close> deletes from
  \<^verbatim>\<open>cache\<close> first, so a \<^verbatim>\<open>KeyError\<close> from \<^verbatim>\<open>del self.access_times[key]\<close> leaves the
  first deletion done.
\<close>

definition remove :: "'v lru_cache \<Rightarrow> string \<Rightarrow> (error + unit) \<times> 'v lru_cache" where
  "remove c key =
     (if has_key (cache c) key then
        (let c1 = c\<lparr>cache := AList.delete key (cache c)\<rparr>
         in if has_key (access_times c1) key
            then (Inr (), c1\<lparr>access_times := AList.delete key (access_times c1)\<rparr>)
            else (Inl KeyError, c1))
      else (Inr (), c))"

text \<open>
  \<^verbatim>\<open>get\<close> reads the clock once for the expiry test (\<open>now\<close>) and once more for the new
  access time (\<open>now'\<close>). The result \<open>None\<close> is Python's \<^verbatim>\<open>None\<close>, not found.
\<close>

definition get ::
  "'v lru_cache \<Rightarrow> string \<Rightarrow> real \<Rightarrow> real \<Rightarrow> (error + 'v option) \<times> 'v lru_cache" where
  "get c key now now' =
     (if has_key (cache c) key then
        (case map_of (access_times c) key of
           None \<Rightarrow> (Inl KeyError, c)
         | Some accessed \<Rightarrow>
             if now - accessed > ttl c then
               (case remove c key of
                  (Inl e, c1) \<Rightarrow> (Inl e, c1)
                | (Inr _, c1) \<Rightarrow> (Inr None, c1\<lparr>misses := misses c1 + 1\<rparr>))
             else
               (let v = the (map_of (cache c) key);
                    c1 = c\<lparr>cache := AList.delete key (cache c)\<rparr>;
                    c2 = c1\<lparr>cache := AList.update key v (cache c1)\<rparr>;
                    c3 = c2\<lparr>access_times := AList.update key now' (access_times c2)\<rparr>
                in (Inr (Some v), c3\<lparr>hits := hits c3 + 1\<rparr>)))
      else (Inr None, c\<lparr>misses := misses c + 1\<rparr>))"

definition put ::
  "'v lru_cache \<Rightarrow> string \<Rightarrow> 'v \<Rightarrow> real \<Rightarrow> (error + unit) \<times> 'v lru_cache" where
  "put c key v current_time =
     (if has_key (cache c) key then
        (let c1 = c\<lparr>cache := AList.delete key (cache c)\<rparr>;
             c2 = c1\<lparr>cache := AList.update key v (cache c1)\<rparr>
         in (Inr (), c2\<lparr>access_times := AList.update key current_time (access_times c2)\<rparr>))
      else
        (let insert_new = (\<lambda>c0.
               (let c1 = c0\<lparr>cache := AList.update key v (cache c0)\<rparr>
                in (Inr (), c1\<lparr>access_times := AList.update key current_time (access_times c1)\<rparr>)))
         in if int (length (cache c)) \<ge> max_size c then
              (case cache c of
                 [] \<Rightarrow> (Inl StopIteration, c)
               | (oldest_key, _) # _ \<Rightarrow>
                   (case remove c oldest_key of
                      (Inl e, c1) \<Rightarrow> (Inl e, c1)
                    | (Inr _, c1) \<Rightarrow> insert_new (c1\<lparr>evictions := evictions c1 + 1\<rparr>)))
            else insert_new c))"

fun remove_all :: "'v lru_cache \<Rightarrow> string list \<Rightarrow> (error + unit) \<times> 'v lru_cache" where
  "remove_all c [] = (Inr (), c)"
| "remove_all c (key # keys) =
     (case remove c key of
        (Inl e, c1) \<Rightarrow> (Inl e, c1)
      | (Inr _, c1) \<Rightarrow> remove_all c1 keys)"

definition cleanup_expired :: "'v lru_cache \<Rightarrow> real \<Rightarrow> (error + int) \<times> 'v lru_cache" where
  "cleanup_expired c current_time =
     (let expired_keys =
            map fst (filter (\<lambda>(key, access_time). current_time - access_time > ttl c)
                       (access_times c))
      in case remove_all c expired_keys of
           (Inl e, c1) \<Rightarrow> (Inl e, c1)
         | (Inr _, c1) \<Rightarrow> (Inr (int (length expired_keys)), c1))"

text \<open>
  A sequence of calls, each with its clock readings. A caller may catch an exception and
  go on, so a run continues from the state an operation leaves, raised or not.
\<close>

datatype 'v cache_op =
    Get string real real
  | Put string 'v real
  | Cleanup real

fun step :: "'v lru_cache \<Rightarrow> 'v cache_op \<Rightarrow> 'v lru_cache" where
  "step c (Get key now now') = snd (get c key now now')"
| "step c (Put key v now) = snd (put c key v now)"
| "step c (Cleanup now) = snd (cleanup_expired c now)"

definition run :: "'v lru_cache \<Rightarrow> 'v cache_op list \<Rightarrow> 'v lru_cache" where
  "run c ops = foldl step c ops"

text \<open>
  The invariant of the two dictionaries: they have the same keys (each once, as in any
  dictionary).
\<close>

definition cache_inv :: "'v lru_cache \<Rightarrow> bool" where
  "cache_inv c =
     (distinct (map fst (cache c)) \<and> distinct (map fst (access_times c))
      \<and> set (map fst (cache c)) = set (map fst (access_times c)))"

text \<open>A cache of capacity 2 after two insertions, used as a concrete instance below.\<close>

definition example_ops :: "nat cache_op list" where
  "example_ops = [Put ''a'' 1 0, Put ''b'' 2 1]"

definition example_cache :: "nat lru_cache" where
  "example_cache = \<lparr>max_size = 2, ttl = 60, cache = [(''a'', 1), (''b'', 2)],
                     access_times = [(''a'', 0), (''b'', 1)],
                     hits = 0, misses = 0, evictions = 0\<rparr>"

section \<open>Query validation and the entry of search\<close>

text \<open>
  \<^verbatim>\<open>infinity_search_engine.py\<close>: \<^verbatim>\<open>validate_query\<close>, the decorator \<^verbatim>\<open>handle_errors\<close>
  and the first statements of \<^verbatim>\<open>InfinitySearchEngine.search\<close>. The query is a Python
  value, since \<^verbatim>\<open>validate_query\<close> tests its type.
\<close>

definition strip :: "string \<Rightarrow> string" where
  "strip s = rev (dropWhile isspace (rev (dropWhile isspace s)))"







section \<open>Fuzzy matching\<close>

text \<open>
  \<^verbatim>\<open>advanced_search_features.py\<close>, class \<^verbatim>\<open>FuzzySearchEngine\<close>. Similarities are real
  numbers: the arithmetic of the source's floats is taken as exact.
\<close>

subsection \<open>Jaro similarity\<close>

text \<open>
  The inner loop \<^verbatim>\<open>for j in range(start, end)\<close>: the first \<open>j\<close> whose flag is not set
  and whose character is \<open>c\<close>, if there is one.
\<close>

function find_match :: "char \<Rightarrow> string \<Rightarrow> bool list \<Rightarrow> nat \<Rightarrow> nat \<Rightarrow> nat option" where
  "find_match c s2 s2_matches j end =
     (if j < end then
        (if s2_matches ! j \<or> c \<noteq> s2 ! j then find_match c s2 s2_matches (j + 1) end
         else Some j)
      else None)"
  by pat_completeness auto
termination
  by (relation "measure (\<lambda>(c, s2, s2_matches, j, end). end - j)") auto

text \<open>
  One round of the outer loop, on the state \<open>(s1_matches, s2_matches, matches)\<close>.
  \<^verbatim>\<open>max(0, i - match_distance)\<close> is the subtraction of natural numbers.
\<close>

definition match_step ::
  "string \<Rightarrow> string \<Rightarrow> nat \<Rightarrow> bool list \<times> bool list \<times> nat \<Rightarrow> nat \<Rightarrow> bool list \<times> bool list \<times> nat" where
  "match_step s1 s2 match_distance st i =
     (case st of (s1_matches, s2_matches, matches) \<Rightarrow>
        (let start = i - match_distance;
             end = min (i + match_distance + 1) (length s2)
         in case find_match (s1 ! i) s2 s2_matches start end of
              None \<Rightarrow> (s1_matches, s2_matches, matches)
            | Some j \<Rightarrow> (s1_matches[i := True], s2_matches[j := True], matches + 1)))"

definition match_distance :: "string \<Rightarrow> string \<Rightarrow> nat" where
  "match_distance s1 s2 = nat (max 0 (int (max (length s1) (length s2)) div 2 - 1))"

definition identify_matches :: "string \<Rightarrow> string \<Rightarrow> bool list \<times> bool list \<times> nat" where
  "identify_matches s1 s2 =
     foldl (match_step s1 s2 (match_distance s1 s2))
       (replicate (length s1) False, replicate (length s2) False, 0) [0..<length s1]"

text \<open>
  \<^verbatim>\<open>while not s2_matches[k]: k += 1\<close>. Reading past the end of the list raises
  \<^verbatim>\<open>IndexError\<close>.
\<close>

function next_match :: "bool list \<Rightarrow> nat \<Rightarrow> error + nat" where
  "next_match s2_matches k =
     (if k \<ge> length s2_matches then Inl IndexError
      else if \<not> s2_matches ! k then next_match s2_matches (k + 1)
      else Inr k)"
  by pat_completeness auto
termination
  by (relation "measure (\<lambda>(s2_matches, k). length s2_matches - k)") auto

text \<open>The second loop, over the remaining values of \<open>i\<close>, with \<open>k\<close> and the count so far.\<close>

fun count_transpositions ::
  "string \<Rightarrow> string \<Rightarrow> bool list \<Rightarrow> bool list \<Rightarrow> nat list \<Rightarrow> nat \<Rightarrow> nat \<Rightarrow> error + nat" where
  "count_transpositions s1 s2 s1_matches s2_matches [] k transpositions = Inr transpositions"
| "count_transpositions s1 s2 s1_matches s2_matches (i # is) k transpositions =
     (if \<not> s1_matches ! i
      then count_transpositions s1 s2 s1_matches s2_matches is k transpositions
      else (case next_match s2_matches k of
              Inl e \<Rightarrow> Inl e
            | Inr k' \<Rightarrow>
                count_transpositions s1 s2 s1_matches s2_matches is (k' + 1)
                  (if s1 ! i \<noteq> s2 ! k' then transpositions + 1 else transpositions)))"

definition jaro_similarity :: "string \<Rightarrow> string \<Rightarrow> error + real" where
  "jaro_similarity s1 s2 =
     (if length s1 = 0 \<and> length s2 = 0 then Inr 1
      else if length s1 = 0 \<or> length s2 = 0 then Inr 0
      else
        (case identify_matches s1 s2 of (s1_matches, s2_matches, matches) \<Rightarrow>
           if matches = 0 then Inr 0
           else
             (case count_transpositions s1 s2 s1_matches s2_matches [0..<length s1] 0 0 of
                Inl e \<Rightarrow> Inl e
              | Inr transpositions \<Rightarrow>
                  Inr ((real matches / real (length s1) + real matches / real (length s2)
                        + (real matches - real transpositions / 2) / real matches) / 3))))"

subsection \<open>Levenshtein similarity\<close>

text \<open>The inner loop builds \<^verbatim>\<open>current_row\<close> from \<^verbatim>\<open>[i + 1]\<close> by appending.\<close>

definition levenshtein_row :: "nat \<Rightarrow> char \<Rightarrow> string \<Rightarrow> nat list \<Rightarrow> nat list" where
  "levenshtein_row i c1 s2 previous_row =
     foldl (\<lambda>current_row (j, c2).
              (let insertions = previous_row ! (j + 1) + 1;
                   deletions = current_row ! j + 1;
                   substitutions = previous_row ! j + (if c1 \<noteq> c2 then 1 else 0)
               in current_row @ [min insertions (min deletions substitutions)]))
       [i + 1] (enumerate 0 s2)"

definition levenshtein_distance :: "string \<Rightarrow> string \<Rightarrow> nat" where
  "levenshtein_distance s1 s2 =
     (let (s1, s2) = (if length s1 < length s2 then (s2, s1) else (s1, s2))
      in if length s2 = 0 then length s1
         else last (foldl (\<lambda>previous_row (i, c1). levenshtein_row i c1 s2 previous_row)
                      [0..<length s2 + 1] (enumerate 0 s1)))"

definition levenshtein_similarity :: "string \<Rightarrow> string \<Rightarrow> real" where
  "levenshtein_similarity s1 s2 =
     (if length s1 = 0 \<and> length s2 = 0 then 1
      else
        (let max_len = max (length s1) (length s2)
         in if max_len = 0 then 1
            else 1 - real (levenshtein_distance s1 s2) / real max_len))"

subsection \<open>The matcher\<close>

record fuzzy_match =
  original_term :: string
  matched_term :: string
  similarity :: real
  source :: string

text \<open>\<^verbatim>\<open>xs[:n]\<close>: a negative \<open>n\<close> counts from the end.\<close>

definition slice_to :: "'a list \<Rightarrow> int \<Rightarrow> 'a list" where
  "slice_to xs n = (if n < 0 then take (nat (int (length xs) + n)) xs else take (nat n) xs)"

text \<open>
  The loop over \<^verbatim>\<open>corpus_terms\<close>, appending to \<^verbatim>\<open>matches\<close>.
  \<^verbatim>\<open>difflib.SequenceMatcher(None, a, b).ratio()\<close> is library code: the parameter
  \<open>ratio\<close>. The threshold is the engine's \<^verbatim>\<open>similarity_threshold\<close>.
\<close>

fun collect_matches ::
  "(string \<Rightarrow> string \<Rightarrow> real) \<Rightarrow> real \<Rightarrow> string \<Rightarrow> string list \<Rightarrow> fuzzy_match list
     \<Rightarrow> error + fuzzy_match list" where
  "collect_matches ratio threshold query_term [] matches = Inr matches"
| "collect_matches ratio threshold query_term (term # terms) matches =
     (let query_lower = lower query_term; term_lower = lower term
      in if query_lower = term_lower
         then collect_matches ratio threshold query_term terms matches
         else (case jaro_similarity query_lower term_lower of
                 Inl e \<Rightarrow> Inl e
               | Inr jaro \<Rightarrow>
                   (let similarities = [ratio query_lower term_lower, jaro,
                                        levenshtein_similarity query_lower term_lower];
                        best_similarity = Max (set similarities)
                    in if best_similarity \<ge> threshold
                       then collect_matches ratio threshold query_term terms
                              (matches @ [\<lparr>original_term = query_term, matched_term = term,
                                           similarity = best_similarity, source = ''corpus''\<rparr>])
                       else collect_matches ratio threshold query_term terms matches)))"

text \<open>
  \<^verbatim>\<open>matches.sort(key=..., reverse=True)\<close> is stable and descending: a stable ascending
  sort on the negated key.
\<close>

definition find_fuzzy_matches ::
  "(string \<Rightarrow> string \<Rightarrow> real) \<Rightarrow> real \<Rightarrow> string \<Rightarrow> string list \<Rightarrow> int
     \<Rightarrow> error + fuzzy_match list" where
  "find_fuzzy_matches ratio threshold query_term corpus_terms max_results =
     (case collect_matches ratio threshold query_term corpus_terms [] of
        Inl e \<Rightarrow> Inl e
      | Inr matches \<Rightarrow> Inr (slice_to (sort_key (\<lambda>x. - similarity x) matches) max_results))"

subsection \<open>What the Jaro loops are specified to compute\<close>

text \<open>
  Both recursive loops are unfolded by hand in the proofs, never by the simplifier.
\<close>

declare next_match.simps [simp del] find_match.simps [simp del]

text \<open>
  The matched characters of a string, in their original order, given its flags; and the
  number of positions at which two such sequences differ. Jaro's number of transpositions
  is half of that number.
\<close>

definition matched_chars :: "string \<Rightarrow> bool list \<Rightarrow> string" where
  "matched_chars s flags = map fst (filter snd (zip s flags))"

definition mismatches :: "string \<Rightarrow> string \<Rightarrow> nat" where
  "mismatches xs ys = length (filter (\<lambda>(a, b). a \<noteq> b) (zip xs ys))"

text \<open>
  The invariant of the first loop once the rounds \<open>i < n\<close> are done: the flag lists keep
  their lengths, \<open>matches\<close> counts the flags of either string, no later position of the
  first string is flagged, and a flagged position of the first string has a flagged
  position with the same character within the match distance.
\<close>

definition match_inv ::
  "string \<Rightarrow> string \<Rightarrow> nat \<Rightarrow> nat \<Rightarrow> bool list \<times> bool list \<times> nat \<Rightarrow> bool" where
  "match_inv s1 s2 d n st =
     (case st of (f1, f2, m) \<Rightarrow>
        length f1 = length s1 \<and> length f2 = length s2
        \<and> m = length (matched_chars s1 f1) \<and> m = length (matched_chars s2 f2)
        \<and> (\<forall>i < length s1. n \<le> i \<longrightarrow> \<not> f1 ! i)
        \<and> (\<forall>i < length s1. f1 ! i \<longrightarrow>
              (\<exists>j < length s2. f2 ! j \<and> s1 ! i = s2 ! j \<and> i \<le> j + d \<and> j \<le> i + d)))"

text \<open>
  Jaro's definition, written from the specification and not from the loops. The window is
  \<open>max(0, floor(max(len1, len2) / 2) - 1)\<close>. The characters of the first string are taken
  in order; each is paired with the first character of the second string that is equal to
  it, lies within the window and is not paired yet, if there is one. \<open>m\<close> is the number of
  pairs. The paired characters of each string are read in the order they have in that
  string, and the number of transpositions \<open>t\<close> is half the number of positions at which
  the two sequences differ.
\<close>

definition jaro_window :: "string \<Rightarrow> string \<Rightarrow> nat" where
  "jaro_window s1 s2 = nat (max 0 (int (max (length s1) (length s2)) div 2 - 1))"

definition candidates :: "string \<Rightarrow> string \<Rightarrow> nat \<Rightarrow> (nat \<times> nat) list \<Rightarrow> nat \<Rightarrow> nat list" where
  "candidates s1 s2 w pairs i =
     filter (\<lambda>j. s2 ! j = s1 ! i \<and> j \<notin> snd ` set pairs \<and> i \<le> j + w \<and> j \<le> i + w)
       [0..<length s2]"

definition pair_step ::
  "string \<Rightarrow> string \<Rightarrow> nat \<Rightarrow> (nat \<times> nat) list \<Rightarrow> nat \<Rightarrow> (nat \<times> nat) list" where
  "pair_step s1 s2 w pairs i =
     (case candidates s1 s2 w pairs i of [] \<Rightarrow> pairs | j # _ \<Rightarrow> pairs @ [(i, j)])"

definition jaro_pairs :: "string \<Rightarrow> string \<Rightarrow> (nat \<times> nat) list" where
  "jaro_pairs s1 s2 = foldl (pair_step s1 s2 (jaro_window s1 s2)) [] [0..<length s1]"

definition jaro_spec :: "string \<Rightarrow> string \<Rightarrow> real" where
  "jaro_spec s1 s2 =
     (if s1 = [] \<and> s2 = [] then 1
      else if s1 = [] \<or> s2 = [] then 0
      else
        (let pairs = jaro_pairs s1 s2;
             m = length pairs
         in if m = 0 then 0
            else
              (let a = map (\<lambda>i. s1 ! i) (sort (map fst pairs));
                   b = map (\<lambda>j. s2 ! j) (sort (map snd pairs));
                   t = real (mismatches a b) / 2
               in (real m / real (length s1) + real m / real (length s2)
                   + (real m - t) / real m) / 3)))"

text \<open>
  How the flags of the first loop and the pairs of the definition correspond once the
  rounds \<open>i < n\<close> are done.
\<close>

definition pairs_inv ::
  "string \<Rightarrow> string \<Rightarrow> nat \<Rightarrow> bool list \<times> bool list \<times> nat \<Rightarrow> (nat \<times> nat) list \<Rightarrow> bool" where
  "pairs_inv s1 s2 n st pairs =
     (case st of (f1, f2, m) \<Rightarrow>
        length f1 = length s1 \<and> length f2 = length s2
        \<and> (\<forall>i < length s1. f1 ! i \<longleftrightarrow> i \<in> fst ` set pairs)
        \<and> (\<forall>j < length s2. f2 ! j \<longleftrightarrow> j \<in> snd ` set pairs)
        \<and> m = length pairs
        \<and> distinct (map fst pairs) \<and> distinct (map snd pairs)
        \<and> (\<forall>p \<in> set pairs. fst p < n \<and> snd p < length s2))"

text \<open>What the matcher is specified to keep: one record of the result.\<close>

definition kept_match ::
  "(string \<Rightarrow> string \<Rightarrow> real) \<Rightarrow> real \<Rightarrow> string \<Rightarrow> string list \<Rightarrow> fuzzy_match \<Rightarrow> bool" where
  "kept_match ratio threshold query_term corpus_terms m =
     (matched_term m \<in> set corpus_terms
      \<and> original_term m = query_term
      \<and> lower (matched_term m) \<noteq> lower query_term
      \<and> (\<exists>jaro. jaro_similarity (lower query_term) (lower (matched_term m)) = Inr jaro
            \<and> similarity m =
                max (ratio (lower query_term) (lower (matched_term m)))
                  (max jaro (levenshtein_similarity (lower query_term) (lower (matched_term m)))))
      \<and> similarity m \<ge> threshold)"

section \<open>Boolean query parsing\<close>

text \<open>
  \<^verbatim>\<open>advanced_search_features.py\<close>, class \<^verbatim>\<open>BooleanSearchEngine\<close>: the tokenizer and the
  recursive-descent parser. \<^verbatim>\<open>query.split()\<close> cuts at runs of white space and yields
  no empty token, so the \<^verbatim>\<open>strip\<close> and the emptiness test of the tokenizer's loop never
  change anything; they are kept.
\<close>

fun split_from :: "string \<Rightarrow> string \<Rightarrow> string list" where
  "split_from [] w = (if w = [] then [] else [rev w])"
| "split_from (c # cs) w =
     (if isspace c then (if w = [] then split_from cs [] else rev w # split_from cs [])
      else split_from cs (c # w))"

definition split :: "string \<Rightarrow> string list" where
  "split s = split_from s []"

fun join :: "string \<Rightarrow> string list \<Rightarrow> string" where
  "join sep [] = []"
| "join sep [x] = x"
| "join sep (x # y # ys) = x @ sep @ join sep (y # ys)"

definition space_parentheses :: "string \<Rightarrow> string" where
  "space_parentheses s =
     concat (map (\<lambda>c. if c = CHR ''('' then '' ( '' else if c = CHR '')'' then '' ) '' else [c]) s)"

definition operators :: "string set" where
  "operators = {''AND'', ''OR'', ''NOT'', ''('', '')''}"

definition tokenize_boolean_query :: "string \<Rightarrow> string list" where
  "tokenize_boolean_query query =
     (let query = upper query;
          query = space_parentheses query
      in concat (map (\<lambda>token.
                        (let token = strip token
                         in if token \<noteq> []
                            then (if token \<in> operators then [token] else [lower token])
                            else []))
                   (split query)))"

text \<open>
  The parser's methods return the expression and the next position, or raise
  \<^verbatim>\<open>ValueError\<close>. The two \<^verbatim>\<open>while\<close> loops are \<open>or_loop\<close> and \<open>and_loop\<close>. Python's
  recursion limit is not modelled.
\<close>

function parse_or_expression :: "string list \<Rightarrow> nat \<Rightarrow> error + expression \<times> nat"
  and or_loop :: "string list \<Rightarrow> expression \<Rightarrow> nat \<Rightarrow> error + expression \<times> nat"
  and parse_and_expression :: "string list \<Rightarrow> nat \<Rightarrow> error + expression \<times> nat"
  and and_loop :: "string list \<Rightarrow> expression \<Rightarrow> nat \<Rightarrow> error + expression \<times> nat"
  and parse_not_expression :: "string list \<Rightarrow> nat \<Rightarrow> error + expression \<times> nat"
  and parse_primary_expression :: "string list \<Rightarrow> nat \<Rightarrow> error + expression \<times> nat"
where
  "parse_or_expression tokens pos =
     (case parse_and_expression tokens pos of
        Inl e \<Rightarrow> Inl e
      | Inr (left, pos') \<Rightarrow> or_loop tokens left pos')"
| "or_loop tokens left pos =
     (if pos < length tokens \<and> tokens ! pos = ''OR'' then
        (case parse_and_expression tokens (pos + 1) of
           Inl e \<Rightarrow> Inl e
         | Inr (right, pos') \<Rightarrow> or_loop tokens (Or left right) pos')
      else Inr (left, pos))"
| "parse_and_expression tokens pos =
     (case parse_not_expression tokens pos of
        Inl e \<Rightarrow> Inl e
      | Inr (left, pos') \<Rightarrow> and_loop tokens left pos')"
| "and_loop tokens left pos =
     (if pos < length tokens \<and> tokens ! pos = ''AND'' then
        (case parse_not_expression tokens (pos + 1) of
           Inl e \<Rightarrow> Inl e
         | Inr (right, pos') \<Rightarrow> and_loop tokens (And left right) pos')
      else Inr (left, pos))"
| "parse_not_expression tokens pos =
     (if pos < length tokens \<and> tokens ! pos = ''NOT'' then
        (case parse_primary_expression tokens (pos + 1) of
           Inl e \<Rightarrow> Inl e
         | Inr (expr, pos') \<Rightarrow> Inr (Not_node expr, pos'))
      else parse_primary_expression tokens pos)"
| "parse_primary_expression tokens pos =
     (if pos \<ge> length tokens then Inl (ValueError ''Unexpected end of expression'')
      else if tokens ! pos = ''('' then
        (case parse_or_expression tokens (pos + 1) of
           Inl e \<Rightarrow> Inl e
         | Inr (expr, pos') \<Rightarrow>
             if pos' \<ge> length tokens \<or> tokens ! pos' \<noteq> '')''
             then Inl (ValueError ''Missing closing parenthesis'')
             else Inr (expr, pos' + 1))
      else if tokens ! pos \<notin> operators then Inr (Term (tokens ! pos), pos + 1)
      else Inl (ValueError (''Unexpected token: '' @ tokens ! pos)))"
  by pat_completeness auto

text \<open>
  Termination: a successful call moves the position forward, and the recursive calls
  are made at a later position or, at the same position, by a function further down the
  chain \<^verbatim>\<open>or\<close>, \<^verbatim>\<open>and\<close>, \<^verbatim>\<open>not\<close>, \<^verbatim>\<open>primary\<close>.
\<close>

definition parse_arg_pos ::
  "(string list \<times> nat + string list \<times> expression \<times> nat + string list \<times> nat)
     + (string list \<times> expression \<times> nat + string list \<times> nat + string list \<times> nat) \<Rightarrow> nat \<times> nat" where
  "parse_arg_pos x =
     (case x of
        Inl (Inl (tokens, pos)) \<Rightarrow> (length tokens - pos, 5)
      | Inl (Inr (Inl (tokens, left, pos))) \<Rightarrow> (length tokens - pos, 0)
      | Inl (Inr (Inr (tokens, pos))) \<Rightarrow> (length tokens - pos, 3)
      | Inr (Inl (tokens, left, pos)) \<Rightarrow> (length tokens - pos, 0)
      | Inr (Inr (Inl (tokens, pos))) \<Rightarrow> (length tokens - pos, 2)
      | Inr (Inr (Inr (tokens, pos))) \<Rightarrow> (length tokens - pos, 1))"

lemma parse_advance:
  "parse_or_expression_or_loop_parse_and_expression_and_loop_parse_not_expression_parse_primary_expression_dom (Inl (Inl (tokens, pos))) \<Longrightarrow>
     parse_or_expression tokens pos = Inr (e, pos') \<Longrightarrow> pos < pos'"
  "parse_or_expression_or_loop_parse_and_expression_and_loop_parse_not_expression_parse_primary_expression_dom (Inl (Inr (Inl (tokens, left, pos)))) \<Longrightarrow>
     or_loop tokens left pos = Inr (e, pos') \<Longrightarrow> pos \<le> pos'"
  "parse_or_expression_or_loop_parse_and_expression_and_loop_parse_not_expression_parse_primary_expression_dom (Inl (Inr (Inr (tokens, pos)))) \<Longrightarrow>
     parse_and_expression tokens pos = Inr (e, pos') \<Longrightarrow> pos < pos'"
  "parse_or_expression_or_loop_parse_and_expression_and_loop_parse_not_expression_parse_primary_expression_dom (Inr (Inl (tokens, left, pos))) \<Longrightarrow>
     and_loop tokens left pos = Inr (e, pos') \<Longrightarrow> pos \<le> pos'"
  "parse_or_expression_or_loop_parse_and_expression_and_loop_parse_not_expression_parse_primary_expression_dom (Inr (Inr (Inl (tokens, pos)))) \<Longrightarrow>
     parse_not_expression tokens pos = Inr (e, pos') \<Longrightarrow> pos < pos'"
  "parse_or_expression_or_loop_parse_and_expression_and_loop_parse_not_expression_parse_primary_expression_dom (Inr (Inr (Inr (tokens, pos)))) \<Longrightarrow>
     parse_primary_expression tokens pos = Inr (e, pos') \<Longrightarrow> pos < pos'"
proof (induct tokens pos and tokens left pos and tokens pos and tokens left pos
         and tokens pos and tokens pos
       arbitrary: e pos' and e pos' and e pos' and e pos' and e pos' and e pos'
       rule: parse_or_expression_or_loop_parse_and_expression_and_loop_parse_not_expression_parse_primary_expression.pinduct)
  case (1 tokens pos)
  from "1.prems" "1.hyps"(1)
  obtain l p where a: "parse_and_expression tokens pos = Inr (l, p)"
    and b: "or_loop tokens l p = Inr (e, pos')"
    by (simp add: parse_or_expression.psimps split: sum.splits prod.splits)
  from "1.hyps"(2)[OF a] "1.hyps"(3)[OF a refl b] show ?case by simp
next
  case (2 tokens left pos)
  show ?case
  proof (cases "pos < length tokens \<and> tokens ! pos = ''OR''")
    case True
    with "2.prems" "2.hyps"(1)
    obtain r p where a: "parse_and_expression tokens (pos + 1) = Inr (r, p)"
      and b: "or_loop tokens (Or left r) p = Inr (e, pos')"
      by (simp add: or_loop.psimps split: sum.splits prod.splits)
    from "2.hyps"(2)[OF True a] "2.hyps"(3)[OF True a refl b] show ?thesis by simp
  next
    case False
    with "2.prems" "2.hyps"(1) show ?thesis
      by (simp add: or_loop.psimps)
  qed
next
  case (3 tokens pos)
  from "3.prems" "3.hyps"(1)
  obtain l p where a: "parse_not_expression tokens pos = Inr (l, p)"
    and b: "and_loop tokens l p = Inr (e, pos')"
    by (simp add: parse_and_expression.psimps split: sum.splits prod.splits)
  from "3.hyps"(2)[OF a] "3.hyps"(3)[OF a refl b] show ?case by simp
next
  case (4 tokens left pos)
  show ?case
  proof (cases "pos < length tokens \<and> tokens ! pos = ''AND''")
    case True
    with "4.prems" "4.hyps"(1)
    obtain r p where a: "parse_not_expression tokens (pos + 1) = Inr (r, p)"
      and b: "and_loop tokens (And left r) p = Inr (e, pos')"
      by (simp add: and_loop.psimps split: sum.splits prod.splits)
    from "4.hyps"(2)[OF True a] "4.hyps"(3)[OF True a refl b] show ?thesis by simp
  next
    case False
    with "4.prems" "4.hyps"(1) show ?thesis
      by (simp add: and_loop.psimps)
  qed
next
  case (5 tokens pos)
  show ?case
  proof (cases "pos < length tokens \<and> tokens ! pos = ''NOT''")
    case True
    with "5.prems" "5.hyps"(1)
    obtain x where a: "parse_primary_expression tokens (pos + 1) = Inr (x, pos')"
      by (simp add: parse_not_expression.psimps split: sum.splits prod.splits)
    from "5.hyps"(2)[OF True a] show ?thesis by simp
  next
    case False
    with "5.prems" "5.hyps"(1)
    have a: "parse_primary_expression tokens pos = Inr (e, pos')"
      by (simp add: parse_not_expression.psimps)
    from "5.hyps"(3)[OF False a] show ?thesis .
  qed
next
  case (6 tokens pos)
  have lt: "pos < length tokens"
    using "6.prems" "6.hyps"(1) by (simp add: parse_primary_expression.psimps split: if_splits)
  show ?case
  proof (cases "tokens ! pos = ''(''")
    case True
    with "6.prems" "6.hyps"(1) lt
    obtain x p where a: "parse_or_expression tokens (pos + 1) = Inr (x, p)" and p: "pos' = p + 1"
      by (simp add: parse_primary_expression.psimps split: sum.splits prod.splits if_splits)
    have "\<not> length tokens \<le> pos" using lt by simp
    from "6.hyps"(2)[OF this True a] p show ?thesis by simp
  next
    case False
    with "6.prems" "6.hyps"(1) lt show ?thesis
      by (simp add: parse_primary_expression.psimps split: if_splits)
  qed
qed

termination parse_or_expression
proof (relation "inv_image (less_than <*lex*> less_than) parse_arg_pos")
  show "wf (inv_image (less_than <*lex*> less_than) parse_arg_pos)"
    by (intro wf_inv_image wf_lex_prod wf_less_than)
next
  fix tokens pos b x y
  assume "parse_and_expression tokens pos = Inr b" "(x, y) = b"
    "parse_or_expression_or_loop_parse_and_expression_and_loop_parse_not_expression_parse_primary_expression_dom
       (Inl (Inr (Inr (tokens, pos))))"
  then have "pos < y" using parse_advance(3)[of tokens pos x y] by simp
  then show "(Inl (Inr (Inl (tokens, x, y))), Inl (Inl (tokens, pos)))
             \<in> inv_image (less_than <*lex*> less_than) parse_arg_pos"
    by (auto simp: parse_arg_pos_def)
next
  fix tokens pos b x y
  assume "pos < length tokens \<and> tokens ! pos = ''OR''"
    "parse_and_expression tokens (pos + 1) = Inr b" "(x, y) = b"
    "parse_or_expression_or_loop_parse_and_expression_and_loop_parse_not_expression_parse_primary_expression_dom
       (Inl (Inr (Inr (tokens, pos + 1))))"
  then have "pos + 1 < y" "pos < length tokens"
    using parse_advance(3)[of tokens "pos + 1" x y] by simp_all
  then show "(Inl (Inr (Inl (tokens, Or left x, y))), Inl (Inr (Inl (tokens, left, pos))))
             \<in> inv_image (less_than <*lex*> less_than) parse_arg_pos" for left
    by (auto simp: parse_arg_pos_def)
next
  fix tokens pos b x y
  assume "parse_not_expression tokens pos = Inr b" "(x, y) = b"
    "parse_or_expression_or_loop_parse_and_expression_and_loop_parse_not_expression_parse_primary_expression_dom
       (Inr (Inr (Inl (tokens, pos))))"
  then have "pos < y" using parse_advance(5)[of tokens pos x y] by simp
  then show "(Inr (Inl (tokens, x, y)), Inl (Inr (Inr (tokens, pos))))
             \<in> inv_image (less_than <*lex*> less_than) parse_arg_pos"
    by (auto simp: parse_arg_pos_def)
next
  fix tokens pos b x y
  assume "pos < length tokens \<and> tokens ! pos = ''AND''"
    "parse_not_expression tokens (pos + 1) = Inr b" "(x, y) = b"
    "parse_or_expression_or_loop_parse_and_expression_and_loop_parse_not_expression_parse_primary_expression_dom
       (Inr (Inr (Inl (tokens, pos + 1))))"
  then have "pos + 1 < y" "pos < length tokens"
    using parse_advance(5)[of tokens "pos + 1" x y] by simp_all
  then show "(Inr (Inl (tokens, And left x, y)), Inr (Inl (tokens, left, pos)))
             \<in> inv_image (less_than <*lex*> less_than) parse_arg_pos" for left
    by (auto simp: parse_arg_pos_def)
qed (auto simp: parse_arg_pos_def)

declare parse_or_expression.simps [simp del] or_loop.simps [simp del]
  parse_and_expression.simps [simp del] and_loop.simps [simp del]
  parse_not_expression.simps [simp del] parse_primary_expression.simps [simp del]

definition parse_expression :: "string list \<Rightarrow> error + expression" where
  "parse_expression tokens =
     (if tokens = [] then Inr Empty
      else (case parse_or_expression tokens 0 of
              Inl e \<Rightarrow> Inl e
            | Inr (expr, pos) \<Rightarrow> Inr expr))"

text \<open>
  The dictionary \<^verbatim>\<open>parse_boolean_query\<close> returns: with \<^verbatim>\<open>success\<close> true, the
  expression, the original query and the tokens; with \<^verbatim>\<open>success\<close> false, the text of
  the exception and the fallback terms.
\<close>

datatype parse_result =
    Parsed expression string "string list"
  | Failed string "string list"

fun success :: "parse_result \<Rightarrow> bool" where
  "success (Parsed expr original_query tokens) = True"
| "success (Failed err fallback_terms) = False"

fun error_text :: "error \<Rightarrow> string" where
  "error_text (ValueError m) = m"
| "error_text (ValidationError m) = m"
| "error_text (SearchError m) = m"
| "error_text e = []"

definition parse_boolean_query :: "string \<Rightarrow> parse_result" where
  "parse_boolean_query query =
     (let tokens = tokenize_boolean_query query
      in case parse_expression tokens of
           Inr expr \<Rightarrow> Parsed expr query tokens
         | Inl e \<Rightarrow> Failed (error_text e) (split query))"

text \<open>
  \<^verbatim>\<open>InfinitySearchEngine.search_boolean\<close> (\<^verbatim>\<open>infinity_search_engine.py\<close>), with the
  advanced search module present. \<open>search_fn\<close> is the engine's \<^verbatim>\<open>search\<close> on a string;
  \<open>matched_results\<close> stands for the statements after a successful parse, which collect
  the products matching the expression. Any exception inside the \<^verbatim>\<open>try\<close> block, the
  fallback search included, leads to \<^verbatim>\<open>search\<close> on the query as given.
\<close>

definition search_boolean ::
  "(string \<Rightarrow> error + 'r list) \<Rightarrow> (expression \<Rightarrow> error + 'r list) \<Rightarrow> string \<Rightarrow> error + 'r list" where
  "search_boolean search_fn matched_results boolean_query =
     (let attempt =
            (case parse_boolean_query boolean_query of
               Failed err fallback_terms \<Rightarrow> search_fn (join '' '' fallback_terms)
             | Parsed expr original_query tokens \<Rightarrow> matched_results expr)
      in case attempt of
           Inl e \<Rightarrow> search_fn boolean_query
         | Inr results \<Rightarrow> Inr results)"

section \<open>The document store under search\<close>

text \<open>
  \<^verbatim>\<open>infinity_search_engine.py\<close>. \<^verbatim>\<open>self.engine.products\<close> is a list of dictionaries, and
  the \<^verbatim>\<open>product_data\<close> of a search result is one of these dictionaries itself, not a
  copy: an assignment \<^verbatim>\<open>result.product_data[key] = value\<close> changes the stored
  document. The store is a list of documents, a result refers to its document by the
  position in the store, and the functions return the store they leave. These are all the
  places of the file that assign to a field of a product after loading. Product ids are
  strings. Of a search result, the fields \<^verbatim>\<open>stone_powers\<close> and \<^verbatim>\<open>matched_fields\<close> are
  left out.
\<close>

record search_result =
  product_id :: string
  product_ref :: nat
  relevance_score :: real

text \<open>\<^verbatim>\<open>result.product_data[key] = value\<close> for the result that refers to \<open>ref\<close>.\<close>

definition annotate :: "document list \<Rightarrow> nat \<Rightarrow> string \<Rightarrow> pyval \<Rightarrow> document list" where
  "annotate store ref key v = store[ref := AList.update key v (store ! ref)]"




subsection \<open>\<^verbatim>\<open>SpaceStone.search\<close>\<close>






subsection \<open>\<^verbatim>\<open>MindStone._enhance_ux_features\<close>\<close>





subsection \<open>\<^verbatim>\<open>PowerStone._process_shard\<close> and \<^verbatim>\<open>PowerStone._optimize_performance\<close>\<close>




subsection \<open>What a search may change\<close>



section \<open>Theorems\<close>

text \<open>
  Claim C1. For every expression tree and every map from terms to sets of product ids:
  a term node evaluates to the set stored for the term, or to the empty set when the term
  has no entry; an \<^verbatim>\<open>and\<close> node to the intersection of its children's results; an
  \<^verbatim>\<open>or\<close> node to their union; a \<^verbatim>\<open>not\<close> node to the union of all the sets stored in
  the map, minus the operand's result; the empty node to the empty set.
\<close>

theorem evaluate_boolean_expression_spec:
  "evaluate_boolean_expression (Term t) pm = (case pm t of None \<Rightarrow> {} | Some s \<Rightarrow> s)
   \<and> evaluate_boolean_expression (And l r) pm =
       evaluate_boolean_expression l pm \<inter> evaluate_boolean_expression r pm
   \<and> evaluate_boolean_expression (Or l r) pm =
       evaluate_boolean_expression l pm \<union> evaluate_boolean_expression r pm
   \<and> evaluate_boolean_expression (Not_node e) pm =
       {i. \<exists>t s. pm t = Some s \<and> i \<in> s} - evaluate_boolean_expression e pm
   \<and> evaluate_boolean_expression Empty pm = {}"
  by (auto simp: ran_def)

subsection \<open>Faceted filtering\<close>

lemma typed_has_specs:
  "typed_product p \<Longrightarrow> \<exists>b. has_detailed_specs p = Inr b"
  by (auto simp: typed_product_def has_detailed_specs_def Let_def split: pyval.splits)

lemma val_in_facet:
  "val_in v sel = (case (case v of PStr b \<Rightarrow> Some b | _ \<Rightarrow> None) of Some x \<Rightarrow> x \<in> set sel | None \<Rightarrow> False)"
  by (cases v) simp_all

lemma product_matches_facet_typed:
  assumes "typed_product p"
  shows "product_matches_facet repr p name sel =
           Inr (case facet_value repr p name of Some v \<Rightarrow> v \<in> set sel | None \<Rightarrow> False)"
proof -
  obtain b where b: "has_detailed_specs p = Inr b"
    using typed_has_specs[OF assms] by blast
  obtain t where t: "dict_get p ''Type'' (PStr []) = PStr t"
    using assms by (auto simp: typed_product_def split: pyval.splits)
  show ?thesis
    by (simp add: product_matches_facet_def facet_value_def b t val_in_facet)
qed

lemma matches_all_filters_typed:
  "typed_product p \<Longrightarrow> matches_all_filters repr p filters = Inr (passes_filters repr p filters)"
proof (induction filters)
  case Nil
  then show ?case by (simp add: passes_filters_def)
next
  case (Cons f filters)
  obtain name sel where f: "f = (name, sel)" by (cases f)
  show ?case
    using Cons
    by (simp add: f product_matches_facet_typed passes_filters_def split: bool.splits)
qed

lemma filter_loop_typed:
  "list_all typed_product ps \<Longrightarrow>
   filter_loop repr ps ids filters acc =
     Inr (acc \<union> {pid \<in> ids. \<exists>p \<in> set ps. dict_get p ''id'' (PStr []) = PStr pid
                                  \<and> passes_filters repr p filters})"
proof (induction ps arbitrary: acc)
  case Nil
  then show ?case by simp
next
  case (Cons p ps)
  then have tp: "typed_product p" and tps: "list_all typed_product ps" by simp_all
  have idp: "\<And>xs. dict_get p ''id'' (PStr []) \<noteq> PList xs" "\<And>xs. dict_get p ''id'' (PStr []) \<noteq> PDict xs"
    using tp by (auto simp: typed_product_def split: pyval.splits)
  show ?case
    using idp by (cases "dict_get p ''id'' (PStr [])")
      (auto simp: Cons.IH[OF tps] matches_all_filters_typed[OF tp] split: bool.splits)
qed

lemma filter_by_facets_typed:
  "list_all typed_product products \<Longrightarrow>
   filter_by_facets repr products product_ids filters =
     Inr (if filters = [] then product_ids
          else {pid \<in> product_ids. \<exists>p \<in> set products.
                  dict_get p ''id'' (PStr []) = PStr pid \<and> passes_filters repr p filters})"
  by (simp add: filter_by_facets_def filter_loop_typed)

text \<open>
  Claim C9. On typed products, \<open>filter_by_facets\<close> returns without an exception. With an
  empty \<open>filters\<close> dictionary it returns the candidate ids unchanged. Otherwise it returns
  exactly the candidate ids that are the id of a product which, for every facet name in
  \<open>filters\<close> with a non-empty selection, has its facet value among the selected values
  (any one of the selected values of a facet suffices; every such facet must be met);
  facet names that are absent, or present with an empty selection, constrain nothing.
\<close>

theorem filter_by_facets_spec:
  assumes "list_all typed_product products"
  shows "filter_by_facets repr products product_ids filters =
     Inr (if filters = [] then product_ids
          else {pid \<in> product_ids. \<exists>p \<in> set products.
                  dict_get p ''id'' (PStr []) = PStr pid \<and> passes_filters repr p filters})"
  using assms by (rule filter_by_facets_typed)

theorem filter_by_facets_spec_witness:
  "list_all typed_product example_products
   \<and> filter_by_facets (\<lambda>v. []) example_products {''1'', ''2'', ''3'', ''4''}
        [(''brand'', [''Samsung'']), (''category'', [''Mobile & Tablets''])] = Inr {''1''}
   \<and> {pid \<in> {''1'', ''2'', ''3'', ''4''}. \<exists>p \<in> set example_products.
          dict_get p ''id'' (PStr []) = PStr pid
          \<and> passes_filters (\<lambda>v. []) p [(''brand'', [''Samsung'']), (''category'', [''Mobile & Tablets''])]}
       = {''1''}"
proof -
  have h: "list_all typed_product example_products" by code_simp
  have e: "filter_by_facets (\<lambda>v. []) example_products {''1'', ''2'', ''3'', ''4''}
        [(''brand'', [''Samsung'']), (''category'', [''Mobile & Tablets''])] = Inr {''1''}"
    by code_simp
  show ?thesis
    using h e filter_by_facets_spec [OF h, of "\<lambda>v. []" "{''1'', ''2'', ''3'', ''4''}"
        "[(''brand'', [''Samsung'']), (''category'', [''Mobile & Tablets''])]"]
    by simp
qed

lemma unknown_facet_fails:
  assumes "(name, sel) \<in> set filters" "sel \<noteq> []"
    and "name \<notin> set [''brand'', ''type'', ''category'', ''price_range'', ''has_specs'']"
  shows "\<not> passes_filters repr p filters"
proof -
  have "facet_value repr p name = None"
    using assms(3) by (simp add: facet_value_def)
  then show ?thesis
    using assms(1,2) by (auto simp: passes_filters_def list_all_iff intro!: bexI[of _ "(name, sel)"])
qed

text \<open>
  Claim C10. When \<open>filters\<close> holds a facet name outside \<^verbatim>\<open>brand\<close>, \<^verbatim>\<open>type\<close>,
  \<^verbatim>\<open>category\<close>, \<^verbatim>\<open>price_range\<close>, \<^verbatim>\<open>has_specs\<close> with a non-empty selection, the
  result is the empty set, whatever the candidate ids are: the unknown facet rejects every
  product.
\<close>

theorem unknown_facet_rejects_all:
  assumes "list_all typed_product products"
    and "(name, sel) \<in> set filters" and "sel \<noteq> []"
    and "name \<notin> set [''brand'', ''type'', ''category'', ''price_range'', ''has_specs'']"
  shows "filter_by_facets repr products product_ids filters = Inr {}"
proof -
  have "filters \<noteq> []" using assms(2) by auto
  then show ?thesis
    using unknown_facet_fails[OF assms(2,3,4)]
    by (simp add: filter_by_facets_typed[OF assms(1)])
qed

theorem unknown_facet_rejects_all_witness:
  "list_all typed_product example_products
   \<and> (''colour'', [''black'']) \<in> set [(''brand'', [''Samsung'']), (''colour'', [''black''])]
   \<and> [''black''] \<noteq> []
   \<and> ''colour'' \<notin> set [''brand'', ''type'', ''category'', ''price_range'', ''has_specs'']
   \<and> filter_by_facets (\<lambda>v. []) example_products {''1'', ''2'', ''3'', ''4''}
        [(''brand'', [''Samsung'']), (''colour'', [''black''])] = Inr {}"
proof -
  have h: "list_all typed_product example_products" by code_simp
  have m: "(''colour'', [''black'']) \<in> set [(''brand'', [''Samsung'']), (''colour'', [''black''])]"
    by simp
  have n: "[''black''] \<noteq> []" by simp
  have u: "''colour'' \<notin> set [''brand'', ''type'', ''category'', ''price_range'', ''has_specs'']"
    by simp
  show ?thesis
    using h m n u unknown_facet_rejects_all [OF h m n u, of "\<lambda>v. []" "{''1'', ''2'', ''3'', ''4''}"]
    by simp
qed

subsection \<open>The LRU cache\<close>

lemma has_key_iff: "has_key d k \<longleftrightarrow> k \<in> fst ` set d"
  by (simp add: has_key_def map_of_eq_None_iff)

lemma update_fresh: "k \<notin> fst ` set al \<Longrightarrow> AList.update k v al = al @ [(k, v)]"
  by (induction al) auto

lemma dom_delete: "fst ` set (AList.delete k al) = fst ` set al - {k}"
  by (induction al) auto

lemma length_delete:
  "distinct (map fst al) \<Longrightarrow> k \<in> fst ` set al \<Longrightarrow> Suc (length (AList.delete k al)) = length al"
  by (induction al) (auto simp: rev_image_eqI)

lemma remove_inv_eq:
  assumes "cache_inv c"
  shows "remove c key =
           (Inr (), c\<lparr>cache := AList.delete key (cache c),
                      access_times := AList.delete key (access_times c)\<rparr>)"
proof (cases "key \<in> fst ` set (cache c)")
  case True
  then have "key \<in> fst ` set (access_times c)"
    using assms by (simp add: cache_inv_def)
  with True show ?thesis
    by (simp add: remove_def has_key_iff Let_def)
next
  case False
  then have "key \<notin> fst ` set (access_times c)"
    using assms by (simp add: cache_inv_def)
  with False show ?thesis
    by (simp add: remove_def has_key_iff)
qed

lemma cache_inv_delete:
  "cache_inv c \<Longrightarrow>
   cache_inv (c\<lparr>cache := AList.delete key (cache c),
                 access_times := AList.delete key (access_times c)\<rparr>)"
  by (simp add: cache_inv_def distinct_delete dom_delete)

lemma cache_inv_touch:
  "cache_inv c \<Longrightarrow>
   cache_inv (c\<lparr>cache := AList.update key v (AList.delete key (cache c)),
                 access_times := AList.update key t (access_times c)\<rparr>)"
  by (auto simp: cache_inv_def distinct_update distinct_delete dom_update dom_delete)

lemma get_absent:
  "\<not> has_key (cache c) key \<Longrightarrow> get c key now now' = (Inr None, c\<lparr>misses := misses c + 1\<rparr>)"
  by (simp add: get_def)

lemma get_expired:
  assumes "cache_inv c" "has_key (cache c) key"
    and "map_of (access_times c) key = Some accessed" "now - accessed > ttl c"
  shows "get c key now now' =
           (Inr None, c\<lparr>cache := AList.delete key (cache c),
                         access_times := AList.delete key (access_times c),
                         misses := misses c + 1\<rparr>)"
  using assms by (simp add: get_def remove_inv_eq)

lemma get_hit:
  assumes "has_key (cache c) key"
    and "map_of (access_times c) key = Some accessed" "\<not> now - accessed > ttl c"
  shows "get c key now now' =
           (Inr (map_of (cache c) key),
            c\<lparr>cache := AList.delete key (cache c) @ [(key, the (map_of (cache c) key))],
              access_times := AList.update key now' (access_times c),
              hits := hits c + 1\<rparr>)"
  using assms
  by (auto simp: get_def Let_def update_fresh delete_notin_dom has_key_def)

lemma inv_has_access:
  "cache_inv c \<Longrightarrow> has_key (cache c) key \<Longrightarrow> \<exists>t. map_of (access_times c) key = Some t"
  by (metis cache_inv_def has_key_iff has_key_def not_None_eq set_map)

lemma cache_inv_get: "cache_inv c \<Longrightarrow> cache_inv (snd (get c key now now'))"
proof (cases "has_key (cache c) key")
  case False
  assume "cache_inv c"
  with False show ?thesis by (simp add: get_absent cache_inv_def)
next
  case True
  assume inv: "cache_inv c"
  then obtain t where t: "map_of (access_times c) key = Some t"
    using True inv_has_access by blast
  show ?thesis
  proof (cases "now - t > ttl c")
    case True
    then show ?thesis
      using cache_inv_delete[OF inv, where key=key]
      by (simp add: get_expired[OF inv \<open>has_key (cache c) key\<close> t True] cache_inv_def)
  next
    case False
    then show ?thesis
      using cache_inv_touch[OF inv, where key=key and v="the (map_of (cache c) key)" and t=now']
      by (simp add: get_hit[OF \<open>has_key (cache c) key\<close> t False] cache_inv_def update_fresh delete_notin_dom)
  qed
qed

lemma put_present:
  "has_key (cache c) key \<Longrightarrow>
   put c key v t =
     (Inr (), c\<lparr>cache := AList.delete key (cache c) @ [(key, v)],
                access_times := AList.update key t (access_times c)\<rparr>)"
  by (simp add: put_def Let_def update_fresh delete_notin_dom)

lemma put_absent_room:
  "\<not> has_key (cache c) key \<Longrightarrow> int (length (cache c)) < max_size c \<Longrightarrow>
   put c key v t =
     (Inr (), c\<lparr>cache := cache c @ [(key, v)],
                access_times := AList.update key t (access_times c)\<rparr>)"
  by (simp add: put_def Let_def update_fresh has_key_iff)

lemma put_absent_empty:
  "\<not> has_key (cache c) key \<Longrightarrow> int (length (cache c)) \<ge> max_size c \<Longrightarrow> cache c = [] \<Longrightarrow>
   put c key v t = (Inl StopIteration, c)"
  by (simp add: put_def)

lemma put_absent_full:
  assumes "cache_inv c" "\<not> has_key (cache c) key" "int (length (cache c)) \<ge> max_size c"
    and "cache c = (oldest_key, oldest) # rest"
  shows "put c key v t =
     (Inr (), c\<lparr>cache := rest @ [(key, v)],
                access_times := AList.update key t (AList.delete oldest_key (access_times c)),
                evictions := evictions c + 1\<rparr>)"
proof -
  have "oldest_key \<notin> fst ` set rest"
    using assms(1,4) by (auto simp: cache_inv_def)
  then have d: "AList.delete oldest_key (cache c) = rest"
    by (simp add: assms(4))
  have "key \<notin> fst ` set rest"
    using assms(2,4) by (auto simp: has_key_iff)
  then have u: "AList.update key v rest = rest @ [(key, v)]"
    by (rule update_fresh)
  have r: "remove c oldest_key =
           (Inr (), c\<lparr>cache := rest, access_times := AList.delete oldest_key (access_times c)\<rparr>)"
    by (simp add: remove_inv_eq[OF assms(1)] d)
  have f: "has_key (cache c) key = False" "(max_size c \<le> int (length (cache c))) = True"
    using assms(2,3) by simp_all
  have l: "(case cache c of [] \<Rightarrow> a | (ok, _) # _ \<Rightarrow> b ok) = b oldest_key" for a :: "'b" and b
    by (simp add: assms(4))
  show ?thesis
    unfolding put_def Let_def f l r by (simp add: u)
qed

lemma remove_all_inv:
  "cache_inv c \<Longrightarrow>
   fst (remove_all c ks) = Inr () \<and> cache_inv (snd (remove_all c ks))
   \<and> length (cache (snd (remove_all c ks))) \<le> length (cache c)
   \<and> max_size (snd (remove_all c ks)) = max_size c"
proof (induction ks arbitrary: c)
  case Nil
  then show ?case by simp
next
  case (Cons k ks)
  let ?c1 = "c\<lparr>cache := AList.delete k (cache c),
                 access_times := AList.delete k (access_times c)\<rparr>"
  have inv1: "cache_inv ?c1" using Cons.prems by (rule cache_inv_delete)
  have len: "length (cache ?c1) \<le> length (cache c)" by (simp add: length_delete_le)
  show ?case
    using Cons.IH[OF inv1] len
    by (simp add: remove_inv_eq[OF Cons.prems])
qed

lemma step_inv:
  assumes "cache_inv c"
  shows "cache_inv (step c op) \<and> max_size (step c op) = max_size c
         \<and> (int (length (cache c)) \<le> max_size c
              \<longrightarrow> int (length (cache (step c op))) \<le> max_size c)"
proof (cases op)
  case (Get key now now')
  show ?thesis
  proof (cases "has_key (cache c) key")
    case False
    then show ?thesis using assms by (simp add: Get get_absent cache_inv_def)
  next
    case True
    then obtain t where t: "map_of (access_times c) key = Some t"
      using assms inv_has_access by blast
    have k: "key \<in> fst ` set (cache c)" using True by (simp add: has_key_iff)
    have d: "distinct (map fst (cache c))" using assms by (simp add: cache_inv_def)
    show ?thesis
    proof (cases "now - t > ttl c")
      case True
      show ?thesis
        using cache_inv_delete[OF assms, where key=key] length_delete_le[of key "cache c"]
        by (simp add: Get get_expired[OF assms \<open>has_key (cache c) key\<close> t True] cache_inv_def)
    next
      case False
      show ?thesis
        using cache_inv_touch[OF assms, where key=key and v="the (map_of (cache c) key)" and t=now']
          length_delete[OF d k]
        by (simp add: Get get_hit[OF \<open>has_key (cache c) key\<close> t False] cache_inv_def
            update_fresh delete_notin_dom)
    qed
  qed
next
  case (Put key v now)
  show ?thesis
  proof (cases "has_key (cache c) key")
    case True
    have k: "key \<in> fst ` set (cache c)" using True by (simp add: has_key_iff)
    have d: "distinct (map fst (cache c))" using assms by (simp add: cache_inv_def)
    show ?thesis
      using cache_inv_touch[OF assms, where key=key and v=v and t=now] length_delete[OF d k]
      by (simp add: Put put_present[OF True] cache_inv_def update_fresh delete_notin_dom)
  next
    case False
    then have nk: "key \<notin> fst ` set (cache c)" by (simp add: has_key_iff)
    show ?thesis
    proof (cases "int (length (cache c)) < max_size c")
      case True
      show ?thesis
        using cache_inv_touch[OF assms, where key=key and v=v and t=now] nk True
        by (simp add: Put put_absent_room[OF False True] cache_inv_def update_fresh)
    next
      case full: False
      show ?thesis
      proof (cases "cache c")
        case Nil
        then show ?thesis
          using assms full by (simp add: Put put_absent_empty[OF False])
      next
        case (Cons kv rest)
        obtain k0 v0 where kv: "kv = (k0, v0)" by (cases kv)
        have c: "cache c = (k0, v0) # rest" using Cons kv by simp
        have k0: "k0 \<notin> fst ` set rest" using assms c by (auto simp: cache_inv_def)
        have inv1: "cache_inv (c\<lparr>cache := rest, access_times := AList.delete k0 (access_times c)\<rparr>)"
          using cache_inv_delete[OF assms, where key=k0] k0 by (simp add: c)
        have "key \<notin> fst ` set rest" using nk c by simp
        then have "cache_inv (c\<lparr>cache := rest @ [(key, v)],
                   access_times := AList.update key now (AList.delete k0 (access_times c))\<rparr>)"
          using cache_inv_touch[OF inv1, where key=key and v=v and t=now]
          by (simp add: update_fresh)
        then show ?thesis
          using full c
          by (simp add: Put put_absent_full[OF assms False _ c] cache_inv_def)
      qed
    qed
  qed
next
  case (Cleanup now)
  show ?thesis
    using remove_all_inv[OF assms,
        of "map fst (filter (\<lambda>(key, access_time). now - access_time > ttl c) (access_times c))"]
    by (auto simp: Cleanup cleanup_expired_def Let_def split: prod.splits sum.splits)
qed

lemma run_inv:
  "cache_inv c \<Longrightarrow>
   cache_inv (run c ops) \<and> max_size (run c ops) = max_size c
   \<and> (int (length (cache c)) \<le> max_size c
        \<longrightarrow> int (length (cache (run c ops))) \<le> max_size c)"
proof (induction ops arbitrary: c)
  case Nil
  then show ?case by (simp add: run_def)
next
  case (Cons op ops)
  have s: "cache_inv (step c op)" "max_size (step c op) = max_size c"
    "int (length (cache c)) \<le> max_size c
       \<longrightarrow> int (length (cache (step c op))) \<le> max_size c"
    using step_inv[OF Cons.prems, of op] by simp_all
  have r: "run c (op # ops) = run (step c op) ops" by (simp add: run_def)
  show ?case
    using Cons.IH[OF s(1)] s(2,3) by (simp add: r)
qed

lemma init_inv: "cache_inv (init ms t)"
  by (simp add: init_def cache_inv_def)

text \<open>
  Claim C2, as amended. Let \<open>c\<close> be the state after any sequence of \<^verbatim>\<open>get\<close>, \<^verbatim>\<open>put\<close> and
  \<^verbatim>\<open>cleanup_expired\<close> calls on a fresh cache of capacity \<open>ms\<close>. If \<open>ms \<ge> 0\<close>, the cache
  holds at most \<open>ms\<close> entries. If \<open>ms \<ge> 1\<close>, a \<^verbatim>\<open>put\<close> of a key that is not present, when
  the cache holds \<open>ms\<close> entries, returns normally, removes exactly the first entry of the
  recency order (the least recently used one) from both dictionaries, appends the new
  entry and increments the eviction counter. A \<^verbatim>\<open>put\<close> of a key that is present returns
  normally, replaces the value, moves the entry to the most recently used end, sets its
  access time, and leaves the number of entries and the eviction counter as they are.
\<close>

theorem lru_capacity_and_put:
  "let c = run (init ms t) ops in
     (0 \<le> ms \<longrightarrow> int (length (cache c)) \<le> ms)
     \<and> (1 \<le> ms \<and> \<not> has_key (cache c) key \<and> int (length (cache c)) \<ge> ms \<longrightarrow>
          (\<exists>oldest_key oldest rest.
             cache c = (oldest_key, oldest) # rest
             \<and> put c key v now =
                 (Inr (), c\<lparr>cache := rest @ [(key, v)],
                            access_times :=
                              AList.update key now (AList.delete oldest_key (access_times c)),
                            evictions := evictions c + 1\<rparr>)))
     \<and> (has_key (cache c) key \<longrightarrow>
          put c key v now =
            (Inr (), c\<lparr>cache := AList.delete key (cache c) @ [(key, v)],
                       access_times := AList.update key now (access_times c)\<rparr>)
          \<and> length (AList.delete key (cache c) @ [(key, v)]) = length (cache c))"
proof -
  define c where "c = run (init ms t) ops"
  have inv: "cache_inv c" and ms: "max_size c = ms"
    using run_inv[OF init_inv, of ms t ops] by (simp_all add: c_def init_def)
  have bound: "0 \<le> ms \<Longrightarrow> int (length (cache c)) \<le> ms"
    using run_inv[OF init_inv, of ms t ops] by (simp add: c_def init_def)
  have full: "\<exists>oldest_key oldest rest.
             cache c = (oldest_key, oldest) # rest
             \<and> put c key v now =
                 (Inr (), c\<lparr>cache := rest @ [(key, v)],
                            access_times :=
                              AList.update key now (AList.delete oldest_key (access_times c)),
                            evictions := evictions c + 1\<rparr>)"
    if h: "1 \<le> ms" "\<not> has_key (cache c) key" "int (length (cache c)) \<ge> ms"
  proof -
    have "cache c \<noteq> []" using h(1,3) by auto
    then obtain oldest_key oldest rest where e: "cache c = (oldest_key, oldest) # rest"
      by (cases "cache c") auto
    have "int (length (cache c)) \<ge> max_size c" using h(3) ms by simp
    from put_absent_full[OF inv h(2) this e] e show ?thesis by blast
  qed
  have present: "put c key v now =
            (Inr (), c\<lparr>cache := AList.delete key (cache c) @ [(key, v)],
                       access_times := AList.update key now (access_times c)\<rparr>)
          \<and> length (AList.delete key (cache c) @ [(key, v)]) = length (cache c)"
    if h: "has_key (cache c) key"
  proof -
    have "distinct (map fst (cache c))" using inv by (simp add: cache_inv_def)
    moreover have "key \<in> fst ` set (cache c)" using h by (simp add: has_key_iff)
    ultimately have "Suc (length (AList.delete key (cache c))) = length (cache c)"
      by (rule length_delete)
    then show ?thesis by (simp add: put_present[OF h])
  qed
  show ?thesis
    unfolding Let_def c_def[symmetric] using bound full present by blast
qed

text \<open>
  Claim C3. Let \<open>c\<close> be any state the cache can reach. \<^verbatim>\<open>get\<close> of an absent key returns
  not-found and increments the miss counter. A present key has an access time and a
  value; if \<open>now\<close> minus the access time exceeds the TTL, \<^verbatim>\<open>get\<close> removes the entry (one
  entry fewer), increments the miss counter and returns not-found; otherwise it returns
  the stored value, moves the entry to the most recently used end, sets its access time to
  the new clock reading and increments the hit counter. Nothing else changes.
\<close>

theorem get_spec:
  "let c = run (init ms t) ops in
     (\<not> has_key (cache c) key \<longrightarrow>
        get c key now now' = (Inr None, c\<lparr>misses := misses c + 1\<rparr>))
     \<and> (has_key (cache c) key \<longrightarrow>
          (\<exists>accessed v. map_of (access_times c) key = Some accessed
             \<and> map_of (cache c) key = Some v
             \<and> (now - accessed > ttl c \<longrightarrow>
                  get c key now now' =
                    (Inr None, c\<lparr>cache := AList.delete key (cache c),
                                  access_times := AList.delete key (access_times c),
                                  misses := misses c + 1\<rparr>)
                  \<and> Suc (length (AList.delete key (cache c))) = length (cache c))
             \<and> (\<not> now - accessed > ttl c \<longrightarrow>
                  get c key now now' =
                    (Inr (Some v), c\<lparr>cache := AList.delete key (cache c) @ [(key, v)],
                                      access_times := AList.update key now' (access_times c),
                                      hits := hits c + 1\<rparr>))))"
proof -
  define c where "c = run (init ms t) ops"
  have inv: "cache_inv c"
    using run_inv[OF init_inv, of ms t ops] by (simp add: c_def)
  have present: "\<exists>accessed v. map_of (access_times c) key = Some accessed
             \<and> map_of (cache c) key = Some v
             \<and> (now - accessed > ttl c \<longrightarrow>
                  get c key now now' =
                    (Inr None, c\<lparr>cache := AList.delete key (cache c),
                                  access_times := AList.delete key (access_times c),
                                  misses := misses c + 1\<rparr>)
                  \<and> Suc (length (AList.delete key (cache c))) = length (cache c))
             \<and> (\<not> now - accessed > ttl c \<longrightarrow>
                  get c key now now' =
                    (Inr (Some v), c\<lparr>cache := AList.delete key (cache c) @ [(key, v)],
                                      access_times := AList.update key now' (access_times c),
                                      hits := hits c + 1\<rparr>))"
    if h: "has_key (cache c) key"
  proof -
    obtain accessed where a: "map_of (access_times c) key = Some accessed"
      using inv_has_access[OF inv h] by blast
    obtain v where v: "map_of (cache c) key = Some v"
      using h by (auto simp: has_key_def)
    have "distinct (map fst (cache c))" using inv by (simp add: cache_inv_def)
    moreover have "key \<in> fst ` set (cache c)" using h by (simp add: has_key_iff)
    ultimately have len: "Suc (length (AList.delete key (cache c))) = length (cache c)"
      by (rule length_delete)
    have e: "now - accessed > ttl c \<Longrightarrow> get c key now now' =
                    (Inr None, c\<lparr>cache := AList.delete key (cache c),
                                  access_times := AList.delete key (access_times c),
                                  misses := misses c + 1\<rparr>)"
      by (rule get_expired[OF inv h a])
    have g: "\<not> now - accessed > ttl c \<Longrightarrow> get c key now now' =
                    (Inr (Some v), c\<lparr>cache := AList.delete key (cache c) @ [(key, v)],
                                      access_times := AList.update key now' (access_times c),
                                      hits := hits c + 1\<rparr>)"
      using get_hit[OF h a, of now now'] by (simp add: v)
    show ?thesis using a v len e g by blast
  qed
  show ?thesis
    unfolding Let_def c_def[symmetric] using get_absent[of c key now now'] present by blast
qed

lemma run_example: "run (init 2 60) example_ops = example_cache"
  by (simp add: run_def init_def example_ops_def example_cache_def put_def has_key_def)

theorem lru_capacity_and_put_witness:
  "run (init 2 60) example_ops = example_cache
   \<and> (0::int) \<le> 2 \<and> int (length (cache example_cache)) \<le> 2
   \<and> (1::int) \<le> 2 \<and> \<not> has_key (cache example_cache) ''c''
   \<and> int (length (cache example_cache)) \<ge> 2
   \<and> put example_cache ''c'' 3 2 =
        (Inr (), example_cache\<lparr>cache := [(''b'', 2), (''c'', 3)],
                               access_times := [(''b'', 1), (''c'', 2)],
                               evictions := 1\<rparr>)
   \<and> has_key (cache example_cache) ''a''
   \<and> put example_cache ''a'' 5 2 =
        (Inr (), example_cache\<lparr>cache := [(''b'', 2), (''a'', 5)],
                               access_times := [(''a'', 2), (''b'', 1)]\<rparr>)"
  using lru_capacity_and_put [of 2 60 example_ops "''c''" 3 2]
    lru_capacity_and_put [of 2 60 example_ops "''a''" 5 2]
  by (simp add: run_example Let_def) (simp add: example_cache_def has_key_def)

text \<open>
  The claim as stated fails for a cache of capacity 0: it is empty and at capacity, and a
  \<^verbatim>\<open>put\<close> raises \<^verbatim>\<open>StopIteration\<close> from \<^verbatim>\<open>next(iter(self.cache))\<close>; nothing is evicted
  and no counter changes.
\<close>

theorem put_at_capacity_counterexample:
  "\<not> has_key (cache (init 0 60 :: nat lru_cache)) ''k''
   \<and> int (length (cache (init 0 60 :: nat lru_cache))) \<ge> max_size (init 0 60 :: nat lru_cache)
   \<and> put (init 0 60 :: nat lru_cache) ''k'' 1 0 = (Inl StopIteration, init 0 60)"
  by (simp add: put_def init_def has_key_def)

theorem get_spec_witness:
  "run (init 2 60) example_ops = example_cache
   \<and> \<not> has_key (cache example_cache) ''c''
   \<and> get example_cache ''c'' 5 6 = (Inr None, example_cache\<lparr>misses := 1\<rparr>)
   \<and> has_key (cache example_cache) ''a''
   \<and> map_of (access_times example_cache) ''a'' = Some 0
   \<and> map_of (cache example_cache) ''a'' = Some 1
   \<and> 61 - 0 > ttl example_cache
   \<and> get example_cache ''a'' 61 62 =
        (Inr None, example_cache\<lparr>cache := [(''b'', 2)], access_times := [(''b'', 1)],
                                  misses := 1\<rparr>)
   \<and> \<not> 5 - 0 > ttl example_cache
   \<and> get example_cache ''a'' 5 6 =
        (Inr (Some 1), example_cache\<lparr>cache := [(''b'', 2), (''a'', 1)],
                                      access_times := [(''a'', 6), (''b'', 1)],
                                      hits := 1\<rparr>)"
  using get_spec [of 2 60 example_ops "''c''" 5 6]
    get_spec [of 2 60 example_ops "''a''" 61 62]
    get_spec [of 2 60 example_ops "''a''" 5 6]
  by (simp add: run_example Let_def) (simp add: example_cache_def has_key_def)

subsection \<open>Query validation and the entry of search\<close>







subsection \<open>Fuzzy matching\<close>

lemma matched_chars_Nil [simp]: "matched_chars [] fs = []" "matched_chars s [] = []"
  by (simp_all add: matched_chars_def)

lemma matched_chars_Cons [simp]:
  "matched_chars (c # s) (f # fs) = (if f then c # matched_chars s fs else matched_chars s fs)"
  by (simp add: matched_chars_def)

lemma mismatches_simps [simp]:
  "mismatches [] ys = 0" "mismatches xs [] = 0"
  "mismatches (a # xs) (b # ys) = (if a \<noteq> b then 1 else 0) + mismatches xs ys"
  by (simp_all add: mismatches_def)

lemma matched_chars_drop:
  "k < length s \<Longrightarrow> length s = length fs \<Longrightarrow>
   matched_chars (drop k s) (drop k fs) =
     (if fs ! k then s ! k # matched_chars (drop (Suc k) s) (drop (Suc k) fs)
      else matched_chars (drop (Suc k) s) (drop (Suc k) fs))"
  by (simp add: Cons_nth_drop_Suc[symmetric])

lemma next_match_drop:
  "matched_chars (drop k s2) (drop k f2) = c # cs \<Longrightarrow> length s2 = length f2 \<Longrightarrow>
   \<exists>k'. next_match f2 k = Inr k' \<and> k \<le> k' \<and> k' < length f2 \<and> f2 ! k' \<and> s2 ! k' = c
        \<and> matched_chars (drop (Suc k') s2) (drop (Suc k') f2) = cs"
proof (induction f2 k rule: next_match.induct)
  case (1 f2 k)
  have k: "k < length f2"
  proof (rule ccontr)
    assume "\<not> k < length f2"
    then show False using "1.prems" by simp
  qed
  show ?case
  proof (cases "f2 ! k")
    case True
    then show ?thesis
      using "1.prems" k matched_chars_drop[of k s2 f2]
      by (subst next_match.simps) auto
  next
    case False
    then have "matched_chars (drop (k + 1) s2) (drop (k + 1) f2) = c # cs"
      using "1.prems" k matched_chars_drop[of k s2 f2] by simp
    from "1.IH"[OF _ False this "1.prems"(2)] k
    obtain k' where "next_match f2 (k + 1) = Inr k'" "k + 1 \<le> k'" "k' < length f2" "f2 ! k'"
      "s2 ! k' = c" "matched_chars (drop (Suc k') s2) (drop (Suc k') f2) = cs"
      by auto
    then show ?thesis
      using False k by (subst next_match.simps) auto
  qed
qed

lemma count_transpositions_spec:
  "length (matched_chars (drop i0 s1) (drop i0 f1)) = length (matched_chars (drop k s2) (drop k f2))
   \<Longrightarrow> length s1 = length f1 \<Longrightarrow> length s2 = length f2 \<Longrightarrow>
   count_transpositions s1 s2 f1 f2 [i0..<length s1] k t =
     Inr (t + mismatches (matched_chars (drop i0 s1) (drop i0 f1))
                         (matched_chars (drop k s2) (drop k f2)))"
proof (induction "length s1 - i0" arbitrary: i0 k t)
  case 0
  then show ?case by simp
next
  case (Suc n)
  then have i0: "i0 < length s1" by simp
  have upt: "[i0..<length s1] = i0 # [Suc i0..<length s1]"
    using i0 by (simp add: upt_conv_Cons)
  have n: "n = length s1 - Suc i0" using Suc.hyps(2) by simp
  show ?case
  proof (cases "f1 ! i0")
    case False
    then have e: "matched_chars (drop i0 s1) (drop i0 f1)
                  = matched_chars (drop (Suc i0) s1) (drop (Suc i0) f1)"
      using matched_chars_drop[OF i0 Suc.prems(2)] by simp
    show ?thesis
      using Suc.hyps(1)[OF n _ Suc.prems(2,3), of k t] Suc.prems(1) False
      by (simp add: upt e)
  next
    case True
    define rest where "rest = matched_chars (drop (Suc i0) s1) (drop (Suc i0) f1)"
    have e: "matched_chars (drop i0 s1) (drop i0 f1) = s1 ! i0 # rest"
      using matched_chars_drop[OF i0 Suc.prems(2)] True by (simp add: rest_def)
    then obtain c cs where ccs: "matched_chars (drop k s2) (drop k f2) = c # cs"
      and len: "length rest = length cs"
      using Suc.prems(1) by (cases "matched_chars (drop k s2) (drop k f2)") auto
    from next_match_drop[OF ccs Suc.prems(3)]
    obtain k' where k': "next_match f2 k = Inr k'" "s2 ! k' = c"
      "matched_chars (drop (Suc k') s2) (drop (Suc k') f2) = cs"
      by blast
    have len': "length (matched_chars (drop (Suc i0) s1) (drop (Suc i0) f1))
                = length (matched_chars (drop (Suc k') s2) (drop (Suc k') f2))"
      using len k'(3) by (simp add: rest_def)
    show ?thesis
      using Suc.hyps(1)[OF n len' Suc.prems(2,3)] True k'
      by (simp add: upt e ccs rest_def)
  qed
qed

lemma find_match_Some:
  "find_match c s2 f2 j e = Some j' \<Longrightarrow> j \<le> j' \<and> j' < e \<and> \<not> f2 ! j' \<and> c = s2 ! j'"
proof (induction c s2 f2 j e rule: find_match.induct)
  case (1 c s2 f2 j e)
  show ?case
  proof (cases "j < e")
    case False
    then show ?thesis using "1.prems" by (simp add: find_match.simps)
  next
    case True
    show ?thesis
    proof (cases "f2 ! j \<or> c \<noteq> s2 ! j")
      case skip: True
      then have "find_match c s2 f2 (j + 1) e = Some j'"
        using "1.prems" True by (subst (asm) find_match.simps) simp
      from "1.IH"[OF True skip this] show ?thesis by simp
    next
      case False
      then have "j' = j"
        using "1.prems" True by (subst (asm) find_match.simps) simp
      then show ?thesis using True False by simp
    qed
  qed
qed

lemma length_matched_chars_set:
  "length s = length fs \<Longrightarrow> i < length fs \<Longrightarrow> \<not> fs ! i \<Longrightarrow>
   length (matched_chars s (fs[i := True])) = Suc (length (matched_chars s fs))"
proof (induction s fs arbitrary: i rule: list_induct2)
  case Nil
  then show ?case by simp
next
  case (Cons c s f fs)
  then show ?case by (cases i) auto
qed

lemma match_step_inv:
  assumes "match_inv s1 s2 d n st" "n < length s1"
  shows "match_inv s1 s2 d (Suc n) (match_step s1 s2 d st n)"
proof -
  obtain f1 f2 m where st: "st = (f1, f2, m)" by (cases st)
  have inv: "length f1 = length s1" "length f2 = length s2"
    "m = length (matched_chars s1 f1)" "m = length (matched_chars s2 f2)"
    "\<forall>i < length s1. n \<le> i \<longrightarrow> \<not> f1 ! i"
    "\<forall>i < length s1. f1 ! i \<longrightarrow>
        (\<exists>j < length s2. f2 ! j \<and> s1 ! i = s2 ! j \<and> i \<le> j + d \<and> j \<le> i + d)"
    using assms(1) by (simp_all add: match_inv_def st)
  show ?thesis
  proof (cases "find_match (s1 ! n) s2 f2 (n - d) (min (n + d + 1) (length s2))")
    case None
    then show ?thesis
      using inv by (simp add: match_step_def st match_inv_def)
  next
    case (Some j)
    from find_match_Some[OF Some]
    have j: "n - d \<le> j" "j < n + d + 1" "j < length s2" "\<not> f2 ! j" "s1 ! n = s2 ! j"
      by simp_all
    have n1: "\<not> f1 ! n" using inv(5) assms(2) by simp
    have c1: "length (matched_chars s1 (f1[n := True])) = Suc m"
      using length_matched_chars_set[of s1 f1 n] inv(1,3) assms(2) n1 by simp
    have c2: "length (matched_chars s2 (f2[j := True])) = Suc m"
      using length_matched_chars_set[of s2 f2 j] inv(2,4) j(3,4) by simp
    have later: "\<forall>i < length s1. Suc n \<le> i \<longrightarrow> \<not> (f1[n := True]) ! i"
      using inv(5) by (simp add: nth_list_update)
    have window: "\<exists>j' < length s2. (f2[j := True]) ! j' \<and> s1 ! i = s2 ! j' \<and> i \<le> j' + d \<and> j' \<le> i + d"
      if i: "i < length s1" "(f1[n := True]) ! i" for i
    proof (cases "i = n")
      case True
      have "(f2[j := True]) ! j" using j(3) inv(2) by simp
      moreover have "n \<le> j + d" "j \<le> n + d" using j(1,2) by linarith+
      ultimately show ?thesis using True j(3,5) by blast
    next
      case False
      then have "f1 ! i" using i(2) by (simp add: nth_list_update split: if_splits)
      then obtain j0 where j0: "j0 < length s2" "f2 ! j0" "s1 ! i = s2 ! j0" "i \<le> j0 + d" "j0 \<le> i + d"
        using inv(6) i(1) by blast
      have "(f2[j := True]) ! j0" using j0(1,2) inv(2) j(3) by (auto simp: nth_list_update)
      then show ?thesis using j0 by blast
    qed
    show ?thesis
      using Some inv(1,2) c1 c2 later window
      by (simp add: match_step_def st match_inv_def)
  qed
qed

lemma foldl_match_inv:
  "n \<le> length s1 \<Longrightarrow>
   match_inv s1 s2 d n
     (foldl (match_step s1 s2 d) (replicate (length s1) False, replicate (length s2) False, 0)
        [0..<n])"
proof (induction n)
  case 0
  have "matched_chars s (replicate k False) = []" for s k
    by (auto simp: matched_chars_def filter_empty_conv dest: set_zip_rightD)
  then show ?case by (simp add: match_inv_def)
next
  case (Suc n)
  then show ?case by (simp add: match_step_inv)
qed

lemma identify_matches_inv:
  "match_inv s1 s2 (match_distance s1 s2) (length s1) (identify_matches s1 s2)"
  unfolding identify_matches_def by (rule foldl_match_inv) simp

lemma jaro_similarity_value:
  assumes "s1 \<noteq> []" "s2 \<noteq> []" "identify_matches s1 s2 = (f1, f2, m)"
  shows "jaro_similarity s1 s2 =
           Inr (if m = 0 then 0
                else (real m / real (length s1) + real m / real (length s2)
                      + (real m - real (mismatches (matched_chars s1 f1) (matched_chars s2 f2)) / 2)
                        / real m) / 3)"
proof -
  have inv: "length f1 = length s1" "length f2 = length s2"
    "length (matched_chars s1 f1) = length (matched_chars s2 f2)"
    using identify_matches_inv[of s1 s2] by (simp_all add: assms(3) match_inv_def)
  have "count_transpositions s1 s2 f1 f2 [0..<length s1] 0 0 =
          Inr (0 + mismatches (matched_chars (drop 0 s1) (drop 0 f1))
                              (matched_chars (drop 0 s2) (drop 0 f2)))"
    by (rule count_transpositions_spec) (simp_all add: inv)
  then show ?thesis
    using assms(1,2) by (simp add: jaro_similarity_def assms(3))
qed

lemma jaro_similarity_total: "\<exists>x. jaro_similarity s1 s2 = Inr x"
proof (cases "s1 = [] \<or> s2 = []")
  case True
  then show ?thesis by (auto simp: jaro_similarity_def)
next
  case False
  obtain f1 f2 m where "identify_matches s1 s2 = (f1, f2, m)"
    by (cases "identify_matches s1 s2")
  with False jaro_similarity_value[of s1 s2 f1 f2 m] show ?thesis by blast
qed

lemma find_match_filter:
  "find_match c s2 f2 a b =
     (case filter (\<lambda>j. \<not> f2 ! j \<and> c = s2 ! j) [a..<b] of [] \<Rightarrow> None | j # _ \<Rightarrow> Some j)"
proof (induction c s2 f2 a b rule: find_match.induct)
  case (1 c s2 f2 j e)
  show ?case
  proof (cases "j < e")
    case False
    then show ?thesis by (subst find_match.simps) simp
  next
    case True
    then have upt: "[j..<e] = j # [j + 1..<e]" by (simp add: upt_conv_Cons)
    show ?thesis
    proof (cases "f2 ! j \<or> c \<noteq> s2 ! j")
      case skip: True
      then show ?thesis
        using "1.IH"[OF True skip] True by (subst find_match.simps) (auto simp: upt)
    next
      case False
      then show ?thesis
        using True by (subst find_match.simps) (auto simp: upt)
    qed
  qed
qed

lemma filter_upt_window:
  "filter (\<lambda>j. a \<le> j \<and> j < b \<and> R j) [0..<L] = filter R [a..<min b L]"
proof (cases "a \<le> min b L")
  case True
  define c where "c = min b L"
  have ac: "a \<le> c" and cL: "c \<le> L" using True by (simp_all add: c_def)
  have "[0..<L] = [0..<c] @ [c..<L]"
    using cL upt_add_eq_append[of 0 c "L - c"] by simp
  moreover have "[0..<c] = [0..<a] @ [a..<c]"
    using ac upt_add_eq_append[of 0 a "c - a"] by simp
  ultimately have split: "[0..<L] = [0..<a] @ [a..<c] @ [c..<L]" by simp
  have 1: "filter (\<lambda>j. a \<le> j \<and> j < b \<and> R j) [0..<a] = []"
    by (simp add: filter_empty_conv)
  have "\<not> j < b" if "j \<in> set [c..<L]" for j
    using that by (simp add: c_def min_def split: if_splits)
  then have 3: "filter (\<lambda>j. a \<le> j \<and> j < b \<and> R j) [c..<L] = []"
    by (simp only: filter_empty_conv) blast
  have "a \<le> j \<and> j < b" if "j \<in> set [a..<c]" for j
    using that by (simp add: c_def)
  then have 2: "filter (\<lambda>j. a \<le> j \<and> j < b \<and> R j) [a..<c] = filter R [a..<c]"
    by (intro filter_cong) blast+
  show ?thesis
    unfolding c_def[symmetric] split filter_append 1 2 3 by simp
next
  case False
  have "\<not> (a \<le> j \<and> j < b)" if "j \<in> set [0..<L]" for j
    using that False by (simp add: min_def split: if_splits)
  then have e1: "filter (\<lambda>j. a \<le> j \<and> j < b \<and> R j) [0..<L] = []"
    by (simp only: filter_empty_conv) blast
  have "min b L \<le> a" using False by linarith
  then have e2: "[a..<min b L] = []" by simp
  show ?thesis unfolding e1 e2 by simp
qed

lemma candidates_window:
  assumes "length f2 = length s2" "\<forall>j < length s2. f2 ! j \<longleftrightarrow> j \<in> snd ` set pairs"
  shows "candidates s1 s2 w pairs i =
           filter (\<lambda>j. \<not> f2 ! j \<and> s1 ! i = s2 ! j) [i - w..<min (i + w + 1) (length s2)]"
proof -
  have "candidates s1 s2 w pairs i =
          filter (\<lambda>j. i - w \<le> j \<and> j < i + w + 1 \<and> (\<not> f2 ! j \<and> s1 ! i = s2 ! j)) [0..<length s2]"
    unfolding candidates_def using assms(2) by (intro filter_cong) auto
  then show ?thesis by (simp only: filter_upt_window)
qed

lemma pair_step_inv:
  assumes "pairs_inv s1 s2 n st pairs" "n < length s1"
  shows "pairs_inv s1 s2 (Suc n) (match_step s1 s2 w st n) (pair_step s1 s2 w pairs n)"
proof -
  obtain f1 f2 m where st: "st = (f1, f2, m)" by (cases st)
  have inv: "length f1 = length s1" "length f2 = length s2"
    "\<forall>i < length s1. f1 ! i \<longleftrightarrow> i \<in> fst ` set pairs"
    "\<forall>j < length s2. f2 ! j \<longleftrightarrow> j \<in> snd ` set pairs"
    "m = length pairs" "distinct (map fst pairs)" "distinct (map snd pairs)"
    "\<forall>p \<in> set pairs. fst p < n \<and> snd p < length s2"
    using assms(1) by (simp_all add: pairs_inv_def st)
  let ?c = "candidates s1 s2 w pairs n"
  have c: "?c = filter (\<lambda>j. \<not> f2 ! j \<and> s1 ! n = s2 ! j) [n - w..<min (n + w + 1) (length s2)]"
    by (rule candidates_window[OF inv(2,4)])
  have fm: "find_match (s1 ! n) s2 f2 (n - w) (min (n + w + 1) (length s2))
            = (case ?c of [] \<Rightarrow> None | j # _ \<Rightarrow> Some j)"
    by (simp only: find_match_filter c)
  show ?thesis
  proof (cases ?c)
    case Nil
    then show ?thesis
      using inv fm by (auto simp: match_step_def pair_step_def st pairs_inv_def less_Suc_eq)
  next
    case (Cons j js)
    then have "j \<in> set ?c" by simp
    then have j: "j < length s2" "j \<notin> snd ` set pairs"
      by (simp_all add: candidates_def)
    have n: "n \<notin> fst ` set pairs" using inv(8) by auto
    have f1: "\<forall>i < length s1. (f1[n := True]) ! i \<longleftrightarrow> i \<in> fst ` set (pairs @ [(n, j)])"
      using inv(1,3) assms(2) by (auto simp: nth_list_update)
    have f2: "\<forall>k < length s2. (f2[j := True]) ! k \<longleftrightarrow> k \<in> snd ` set (pairs @ [(n, j)])"
      using inv(2,4) j(1) by (auto simp: nth_list_update)
    have d: "distinct (map fst (pairs @ [(n, j)]))" "distinct (map snd (pairs @ [(n, j)]))"
      using inv(6,7) n j(2) by auto
    have b: "\<forall>p \<in> set (pairs @ [(n, j)]). fst p < Suc n \<and> snd p < length s2"
      using inv(8) j(1) by (auto simp: less_Suc_eq)
    show ?thesis
      using Cons fm inv(1,2,5) f1 f2 d b
      by (simp add: match_step_def pair_step_def st pairs_inv_def)
  qed
qed

lemma foldl_pairs_inv:
  "n \<le> length s1 \<Longrightarrow>
   pairs_inv s1 s2 n
     (foldl (match_step s1 s2 w) (replicate (length s1) False, replicate (length s2) False, 0)
        [0..<n])
     (foldl (pair_step s1 s2 w) [] [0..<n])"
proof (induction n)
  case 0
  then show ?case by (simp add: pairs_inv_def)
next
  case (Suc n)
  then show ?case by (simp add: pair_step_inv)
qed

lemma matched_chars_nth:
  assumes "length s = length f"
  shows "matched_chars s f = map (\<lambda>i. s ! i) (filter (\<lambda>i. f ! i) [0..<length s])"
proof -
  have "zip s f = map (\<lambda>i. (s ! i, f ! i)) [0..<length s]"
    using assms by (intro nth_equalityI) simp_all
  then show ?thesis
    by (simp add: matched_chars_def filter_map comp_def)
qed

lemma filter_mem_upt_sort:
  assumes "distinct xs" "\<forall>x \<in> set xs. x < n"
  shows "filter (\<lambda>i. i \<in> set xs) [0..<n] = sort xs"
proof (rule sorted_distinct_set_unique)
  show "sorted (filter (\<lambda>i. i \<in> set xs) [0..<n])" by (simp add: sorted_wrt_filter)
  show "distinct (filter (\<lambda>i. i \<in> set xs) [0..<n])" by simp
  show "sorted (sort xs)" by simp
  show "distinct (sort xs)" using assms(1) by simp
  show "set (filter (\<lambda>i. i \<in> set xs) [0..<n]) = set (sort xs)" using assms(2) by auto
qed

lemma identify_matches_pairs:
  assumes "identify_matches s1 s2 = (f1, f2, m)"
  shows "m = length (jaro_pairs s1 s2)
         \<and> matched_chars s1 f1 = map (\<lambda>i. s1 ! i) (sort (map fst (jaro_pairs s1 s2)))
         \<and> matched_chars s2 f2 = map (\<lambda>j. s2 ! j) (sort (map snd (jaro_pairs s1 s2)))"
proof -
  let ?P = "jaro_pairs s1 s2"
  have "pairs_inv s1 s2 (length s1) (identify_matches s1 s2) ?P"
    unfolding identify_matches_def jaro_pairs_def match_distance_def jaro_window_def
    by (rule foldl_pairs_inv) simp
  then have inv: "length f1 = length s1" "length f2 = length s2"
    "\<forall>i < length s1. f1 ! i \<longleftrightarrow> i \<in> fst ` set ?P"
    "\<forall>j < length s2. f2 ! j \<longleftrightarrow> j \<in> snd ` set ?P"
    "m = length ?P" "distinct (map fst ?P)" "distinct (map snd ?P)"
    "\<forall>p \<in> set ?P. fst p < length s1 \<and> snd p < length s2"
    by (simp_all add: pairs_inv_def assms)
  have "filter (\<lambda>i. f1 ! i) [0..<length s1] = filter (\<lambda>i. i \<in> set (map fst ?P)) [0..<length s1]"
    using inv(3) by (intro filter_cong) auto
  also have "\<dots> = sort (map fst ?P)"
    using inv(6,8) by (intro filter_mem_upt_sort) auto
  finally have a: "matched_chars s1 f1 = map (\<lambda>i. s1 ! i) (sort (map fst ?P))"
    using matched_chars_nth[of s1 f1] inv(1) by simp
  have "filter (\<lambda>j. f2 ! j) [0..<length s2] = filter (\<lambda>j. j \<in> set (map snd ?P)) [0..<length s2]"
    using inv(4) by (intro filter_cong) auto
  also have "\<dots> = sort (map snd ?P)"
    using inv(7,8) by (intro filter_mem_upt_sort) auto
  finally have b: "matched_chars s2 f2 = map (\<lambda>j. s2 ! j) (sort (map snd ?P))"
    using matched_chars_nth[of s2 f2] inv(2) by simp
  show ?thesis using inv(5) a b by simp
qed

text \<open>
  Claim C7. \<^verbatim>\<open>_jaro_similarity\<close> never raises and returns the standard Jaro value
  \<open>jaro_spec\<close>: 1 for two empty strings, 0 when exactly one is empty; otherwise, with the
  characters matched within the window \<open>max(0, floor(max(len1, len2) / 2) - 1)\<close>, 0 when
  nothing matches and \<open>(m / len1 + m / len2 + (m - t) / m) / 3\<close> for \<open>m\<close> matches and \<open>t\<close>
  transpositions, the matched characters of each string being aligned in their original
  order (\<open>t\<close> is Jaro's count, half the number of aligned positions that differ).
\<close>

theorem jaro_similarity_spec:
  "jaro_similarity s1 s2 = Inr (jaro_spec s1 s2)"
proof (cases "s1 = [] \<or> s2 = []")
  case True
  then show ?thesis by (auto simp: jaro_similarity_def jaro_spec_def)
next
  case False
  obtain f1 f2 m where e: "identify_matches s1 s2 = (f1, f2, m)"
    by (cases "identify_matches s1 s2")
  from identify_matches_pairs[OF e] jaro_similarity_value[OF _ _ e] False
  show ?thesis by (simp add: jaro_spec_def Let_def)
qed

theorem jaro_similarity_spec_witness:
  "jaro_similarity ''CRATE'' ''TRACE'' = Inr (11 / 15)
   \<and> jaro_spec ''CRATE'' ''TRACE'' = 11 / 15
   \<and> jaro_window ''CRATE'' ''TRACE'' = 1
   \<and> jaro_pairs ''CRATE'' ''TRACE'' = [(1, 1), (2, 2), (4, 4)]
   \<and> jaro_spec ''MARTHA'' ''MARHTA'' = 17 / 18
   \<and> jaro_pairs ''MARTHA'' ''MARHTA'' = [(0, 0), (1, 1), (2, 2), (3, 4), (4, 3), (5, 5)]
   \<and> jaro_spec ''axxx'' ''xaxx'' = 11 / 12
   \<and> jaro_spec ''abc'' ''xyz'' = 0
   \<and> jaro_spec ''a'' [] = 0 \<and> jaro_spec [] [] = 1"
proof -
  have s: "jaro_spec ''CRATE'' ''TRACE'' = 11 / 15" "jaro_spec ''MARTHA'' ''MARHTA'' = 17 / 18"
    "jaro_spec ''axxx'' ''xaxx'' = 11 / 12" "jaro_spec ''abc'' ''xyz'' = 0"
    "jaro_spec ''a'' [] = 0" "jaro_spec [] [] = 1"
    by code_simp+
  have p: "jaro_pairs ''CRATE'' ''TRACE'' = [(1, 1), (2, 2), (4, 4)]"
    "jaro_pairs ''MARTHA'' ''MARHTA'' = [(0, 0), (1, 1), (2, 2), (3, 4), (4, 3), (5, 5)]"
    "jaro_window ''CRATE'' ''TRACE'' = 1"
    by code_simp+
  show ?thesis
    using s p jaro_similarity_spec [of "''CRATE''" "''TRACE''"] by simp
qed

lemma collect_matches_spec:
  "\<exists>ms. collect_matches ratio threshold query_term terms acc = Inr (acc @ ms)
        \<and> list_all (kept_match ratio threshold query_term terms) ms"
proof (induction terms arbitrary: acc)
  case Nil
  then show ?case by simp
next
  case (Cons t terms)
  have mono: "list_all (kept_match ratio threshold query_term (t # terms)) ms"
    if "list_all (kept_match ratio threshold query_term terms) ms" for ms
    using that by (auto simp: list_all_iff kept_match_def)
  obtain jaro where jaro: "jaro_similarity (lower query_term) (lower t) = Inr jaro"
    using jaro_similarity_total by blast
  define best where "best = max (ratio (lower query_term) (lower t))
                             (max jaro (levenshtein_similarity (lower query_term) (lower t)))"
  have best: "Max (set [ratio (lower query_term) (lower t), jaro,
                        levenshtein_similarity (lower query_term) (lower t)]) = best"
    by (simp add: best_def)
  show ?case
  proof (cases "lower query_term = lower t \<or> \<not> best \<ge> threshold")
    case True
    obtain ms where "collect_matches ratio threshold query_term terms acc = Inr (acc @ ms)"
      "list_all (kept_match ratio threshold query_term terms) ms"
      using Cons.IH[of acc] by blast
    then show ?thesis
      using True mono[of ms] by (auto simp: Let_def jaro best simp del: set_simps)
  next
    case False
    let ?m = "\<lparr>original_term = query_term, matched_term = t, similarity = best,
               source = ''corpus''\<rparr>"
    obtain ms where ms: "collect_matches ratio threshold query_term terms (acc @ [?m])
                         = Inr ((acc @ [?m]) @ ms)"
      "list_all (kept_match ratio threshold query_term terms) ms"
      using Cons.IH[of "acc @ [?m]"] by blast
    have k: "kept_match ratio threshold query_term (t # terms) ?m"
      using False by (auto simp: kept_match_def jaro best_def)
    have "collect_matches ratio threshold query_term (t # terms) acc = Inr (acc @ (?m # ms))"
      using False ms(1) by (simp add: Let_def jaro best del: set_simps)
    then show ?thesis
      using k mono[OF ms(2)] by (intro exI[of _ "?m # ms"]) simp
  qed
qed

lemma length_slice_to: "0 \<le> n \<Longrightarrow> int (length (slice_to xs n)) \<le> n"
  by (simp add: slice_to_def)

lemma set_slice_to: "set (slice_to xs n) \<subseteq> set xs"
  by (auto simp: slice_to_def dest: in_set_takeD)

lemma sorted_slice_to: "sorted_wrt P xs \<Longrightarrow> sorted_wrt P (slice_to xs n)"
  by (simp add: slice_to_def sorted_wrt_take)

lemma sorted_desc_sort_key:
  "sorted_wrt (\<lambda>a b. similarity a \<ge> similarity b) (sort_key (\<lambda>x. - similarity x) ms)"
proof -
  have "sorted (map (\<lambda>x. - similarity x) (sort_key (\<lambda>x. - similarity x) ms))"
    by (rule sorted_sort_key)
  then show ?thesis
    by (simp add: sorted_map sorted_wrt_iff_nth_less)
qed

lemma find_fuzzy_matches_kept:
  "\<exists>ms. find_fuzzy_matches ratio threshold query_term corpus_terms max_results = Inr ms
     \<and> list_all (kept_match ratio threshold query_term corpus_terms) ms
     \<and> sorted_wrt (\<lambda>a b. similarity a \<ge> similarity b) ms
     \<and> (0 \<le> max_results \<longrightarrow> int (length ms) \<le> max_results)"
proof -
  obtain ms where ms: "collect_matches ratio threshold query_term corpus_terms [] = Inr ms"
    "list_all (kept_match ratio threshold query_term corpus_terms) ms"
    using collect_matches_spec[of ratio threshold query_term corpus_terms "[]"] by auto
  let ?r = "slice_to (sort_key (\<lambda>x. - similarity x) ms) max_results"
  have "set ?r \<subseteq> set ms" using set_slice_to[of "sort_key (\<lambda>x. - similarity x) ms"] by simp
  then have "list_all (kept_match ratio threshold query_term corpus_terms) ?r"
    using ms(2) by (auto simp: list_all_iff)
  moreover have "sorted_wrt (\<lambda>a b. similarity a \<ge> similarity b) ?r"
    by (intro sorted_slice_to sorted_desc_sort_key)
  moreover have "0 \<le> max_results \<longrightarrow> int (length ?r) \<le> max_results"
    using length_slice_to by blast
  ultimately show ?thesis
    by (simp add: find_fuzzy_matches_def ms(1))
qed

text \<open>
  Claim C6, as amended. \<^verbatim>\<open>find_fuzzy_matches\<close> never raises, and every record it
  returns has a matched term from the corpus that differs from the query term after
  lower-casing, a similarity equal to the largest of the sequence ratio, the Jaro
  similarity and the Levenshtein similarity of the lower-cased pair, and a similarity at
  least the threshold; the records are in descending order of similarity; and when
  \<open>max_results\<close> is not negative there are at most \<open>max_results\<close> of them.
\<close>

theorem find_fuzzy_matches_spec:
  "\<exists>ms. find_fuzzy_matches ratio threshold query_term corpus_terms max_results = Inr ms
     \<and> (\<forall>m \<in> set ms.
           matched_term m \<in> set corpus_terms
           \<and> lower (matched_term m) \<noteq> lower query_term
           \<and> (\<exists>jaro. jaro_similarity (lower query_term) (lower (matched_term m)) = Inr jaro
                 \<and> similarity m =
                     max (ratio (lower query_term) (lower (matched_term m)))
                       (max jaro
                          (levenshtein_similarity (lower query_term) (lower (matched_term m)))))
           \<and> similarity m \<ge> threshold)
     \<and> sorted_wrt (\<lambda>a b. similarity a \<ge> similarity b) ms
     \<and> (0 \<le> max_results \<longrightarrow> int (length ms) \<le> max_results)"
  using find_fuzzy_matches_kept[of ratio threshold query_term corpus_terms max_results]
  by (auto simp: list_all_iff kept_match_def)

theorem find_fuzzy_matches_spec_witness:
  "(0::int) \<le> 1
   \<and> find_fuzzy_matches (\<lambda>a b. 0) (6 / 10) ''cat'' [''Cart'', ''dog'', ''CAT''] 1
       = Inr [\<lparr>original_term = ''cat'', matched_term = ''Cart'',
               similarity = 11 / 12, source = ''corpus''\<rparr>]
   \<and> ''Cart'' \<in> set [''Cart'', ''dog'', ''CAT'']
   \<and> lower ''Cart'' \<noteq> lower ''cat''
   \<and> jaro_similarity (lower ''cat'') (lower ''Cart'') = Inr (11 / 12)
   \<and> levenshtein_similarity (lower ''cat'') (lower ''Cart'') = 3 / 4"
proof -
  have e: "find_fuzzy_matches (\<lambda>a b. 0) (6 / 10) ''cat'' [''Cart'', ''dog'', ''CAT''] 1
       = Inr [\<lparr>original_term = ''cat'', matched_term = ''Cart'',
               similarity = 11 / 12, source = ''corpus''\<rparr>]"
    by code_simp
  have j: "jaro_similarity (lower ''cat'') (lower ''Cart'') = Inr (11 / 12)"
    by code_simp
  have l: "levenshtein_similarity (lower ''cat'') (lower ''Cart'') = 3 / 4"
    by code_simp
  have n: "lower ''Cart'' \<noteq> lower ''cat''" by code_simp
  show ?thesis
    using e j l n
      find_fuzzy_matches_spec [of "\<lambda>a b. 0" "6 / 10" "''cat''"
        "[''Cart'', ''dog'', ''CAT'']" 1]
    by simp
qed

text \<open>
  The claim as stated fails for a negative \<open>max_results\<close>: \<^verbatim>\<open>matches[:-1]\<close> drops the
  last match only, so one record is returned for the bound \<open>-1\<close>.
\<close>

theorem find_fuzzy_matches_negative_counterexample:
  "find_fuzzy_matches (\<lambda>a b. 1) (1 / 2) ''a'' [''b'', ''c''] (- 1)
     = Inr [\<lparr>original_term = ''a'', matched_term = ''b'', similarity = 1, source = ''corpus''\<rparr>]
   \<and> \<not> int (length [\<lparr>original_term = ''a'', matched_term = ''b'', similarity = 1,
                       source = ''corpus''\<rparr>]) \<le> - 1"
  by code_simp

subsection \<open>Boolean query parsing\<close>

lemma parse_boolean_query_failed:
  "\<not> success (parse_boolean_query query) \<Longrightarrow>
   \<exists>err. parse_boolean_query query = Failed err (split query)"
  by (auto simp: parse_boolean_query_def Let_def split: sum.splits)

lemma search_boolean_fallback:
  assumes "\<not> success (parse_boolean_query query)"
  shows "search_boolean search_fn matched_results query =
           (case search_fn (join '' '' (split query)) of
              Inl e \<Rightarrow> search_fn query
            | Inr results \<Rightarrow> Inr results)"
proof -
  obtain err where "parse_boolean_query query = Failed err (split query)"
    using parse_boolean_query_failed[OF assms] by blast
  then show ?thesis by (simp add: search_boolean_def)
qed

lemma unclosed_parenthesis_rejected:
  "parse_boolean_query ''bluetooth AND (headphone OR speaker'' =
     Failed ''Missing closing parenthesis''
       [''bluetooth'', ''AND'', ''(headphone'', ''OR'', ''speaker'']"
  by code_simp

text \<open>
  Claim C5 does not hold of the code. \<^verbatim>\<open>_parse_expression\<close> keeps the expression and
  drops the position \<^verbatim>\<open>_parse_or_expression\<close> returns, so tokens left after a complete
  expression are never looked at: a query with an unmatched closing parenthesis, and the
  query \<^verbatim>\<open>camera NOT digital\<close> of the method's own documentation, are parsed with
  \<^verbatim>\<open>success\<close> true, to the expression before the left-over tokens. An unmatched opening
  parenthesis is reported.
\<close>

theorem trailing_tokens_accepted:
  "parse_boolean_query ''bluetooth AND headphone)'' =
     Parsed (And (Term ''bluetooth'') (Term ''headphone'')) ''bluetooth AND headphone)''
       [''bluetooth'', ''AND'', ''headphone'', '')'']
   \<and> success (parse_boolean_query ''bluetooth AND headphone)'')
   \<and> parse_boolean_query ''camera NOT digital'' =
       Parsed (Term ''camera'') ''camera NOT digital'' [''camera'', ''NOT'', ''digital'']
   \<and> \<not> success (parse_boolean_query ''bluetooth AND (headphone'')"
  by code_simp

subsection \<open>The document store under search\<close>



lemma length_annotate [simp]: "length (annotate store ref key v) = length store"
  by (simp add: annotate_def)













end
